theory Spec2Isabelle
  imports Main
begin

section \<open>JavaScript values used by the collection page\<close>

text \<open>
  The reconciliation routine lives in \<^verbatim>\<open>MediaPage\<close> (collection page). The fields
  it reads come out of a JSON payload; a field is modelled as a JavaScript primitive (a
  field that holds an object or an array is not modelled). Strings are sequences of code
  units below 256; a number is kept as the text that
  \<^verbatim>\<open>String(n)\<close> prints for it (so \<^verbatim>\<open>7\<close> is \<open>Num ''7''\<close>, \<^verbatim>\<open>4.5\<close> is
  \<open>Num ''4.5''\<close>), which is all the routine ever observes of a number besides its
  truthiness. No number prints as the empty text, so \<open>Num []\<close> stands for no value of
  the program; it is counted among the falsy ones.
\<close>

datatype jsval = Undefined | Null | Bool bool | Num string | Str string

datatype error = TypeError

fun truthy :: "jsval \<Rightarrow> bool" where
  "truthy Undefined = False"
| "truthy Null = False"
| "truthy (Bool b) = b"
| "truthy (Num s) = (s \<noteq> [] \<and> s \<noteq> ''0'' \<and> s \<noteq> ''NaN'')"
| "truthy (Str s) = (s \<noteq> [])"

fun nullish :: "jsval \<Rightarrow> bool" where
  "nullish Undefined = True"
| "nullish Null = True"
| "nullish _ = False"

text \<open>\<^verbatim>\<open>String(v)\<close>, also what a template literal prints for \<^verbatim>\<open>${v}\<close>.\<close>

fun js_String :: "jsval \<Rightarrow> string" where
  "js_String Undefined = ''undefined''"
| "js_String Null = ''null''"
| "js_String (Bool b) = (if b then ''true'' else ''false'')"
| "js_String (Num s) = s"
| "js_String (Str s) = s"

text \<open>\<^verbatim>\<open>a || b\<close> and \<^verbatim>\<open>a ?? b\<close>.\<close>

definition js_or :: "jsval \<Rightarrow> jsval \<Rightarrow> jsval" where
  "js_or a b = (if truthy a then a else b)"

definition js_coalesce :: "jsval \<Rightarrow> jsval \<Rightarrow> jsval" where
  "js_coalesce a b = (if nullish a then b else a)"

subsection \<open>String methods\<close>

definition lower_char :: "char \<Rightarrow> char" where
  "lower_char c =
     (let n = (of_char c :: nat)
      in if (65 \<le> n \<and> n \<le> 90) \<or> (192 \<le> n \<and> n \<le> 222 \<and> n \<noteq> 215)
         then char_of (n + 32) else c)"

definition toLowerCase :: "string \<Rightarrow> string" where
  "toLowerCase s = map lower_char s"

definition is_space :: "char \<Rightarrow> bool" where
  "is_space c = ((of_char c :: nat) \<in> {9, 10, 11, 12, 13, 32, 160})"

definition trim :: "string \<Rightarrow> string" where
  "trim s = rev (dropWhile is_space (rev (dropWhile is_space s)))"

text \<open>
  A method call on a value that is not a string: \<^verbatim>\<open>(v || "").toLowerCase()\<close>,
  \<^verbatim>\<open>(v || "").trim()\<close> and \<^verbatim>\<open>(v || "").slice(0, 4)\<close> raise a TypeError when
  \<^verbatim>\<open>v\<close> is a truthy number or boolean, which has no such method.
\<close>

definition or_empty :: "jsval \<Rightarrow> error + string" where
  "or_empty v =
     (case js_or v (Str []) of Str s \<Rightarrow> Inr s | _ \<Rightarrow> Inl TypeError)"

subsection \<open>\<^verbatim>\<open>Number\<close> on a short string\<close>

text \<open>
  \<^verbatim>\<open>toYear\<close> applies \<^verbatim>\<open>Number\<close> to at most four code units. On so short a string
  the literal has at most four significant digits and an exponent of at most two, so
  the value is a decimal \<open>\<plusminus> m * 10 ^ e\<close> that the double holds up to printing, and
  \<^verbatim>\<open>Infinity\<close> cannot be spelled. \<open>Number4\<close> returns what \<^verbatim>\<open>String(Number(s))\<close>
  prints for such a string.
\<close>

datatype parsed = NaN | Dec bool string int

definition is_digit :: "char \<Rightarrow> bool" where
  "is_digit c = (48 \<le> (of_char c :: nat) \<and> (of_char c :: nat) \<le> 57)"

text \<open>The value of a digit in bases up to 16; a character that is no digit gets 99.\<close>

definition digit_val :: "char \<Rightarrow> nat" where
  "digit_val c =
     (let n = (of_char c :: nat)
      in if 48 \<le> n \<and> n \<le> 57 then n - 48
         else if 97 \<le> n \<and> n \<le> 102 then n - 87
         else if 65 \<le> n \<and> n \<le> 70 then n - 55
         else 99)"

definition nat_of_digits :: "nat \<Rightarrow> string \<Rightarrow> nat" where
  "nat_of_digits base ds = foldl (\<lambda>a c. a * base + digit_val c) 0 ds"

fun digits_of_nat :: "nat \<Rightarrow> string" where
  "digits_of_nat n =
     (if n < 10 then [char_of (48 + n)]
      else digits_of_nat (n div 10) @ [char_of (48 + n mod 10)])"

declare digits_of_nat.simps [simp del]

text \<open>
  A literal that is read: its sign, the decimal digits of its mantissa as written (zeros
  in front or behind included) and its decimal exponent. A literal in base 16, 8 or 2 is
  turned into decimal digits at once.
\<close>

definition parse_radix :: "nat \<Rightarrow> string \<Rightarrow> parsed" where
  "parse_radix base ds =
     (if ds \<noteq> [] \<and> list_all (\<lambda>c. digit_val c < base) ds
      then Dec False (digits_of_nat (nat_of_digits base ds)) 0 else NaN)"

definition parse_digits :: "string \<Rightarrow> nat option" where
  "parse_digits ds =
     (if ds \<noteq> [] \<and> list_all is_digit ds then Some (nat_of_digits 10 ds) else None)"

fun parse_exponent :: "string \<Rightarrow> int option" where
  "parse_exponent [] = Some 0"
| "parse_exponent (c # cs) =
     (if c = CHR ''e'' \<or> c = CHR ''E'' then
        (case cs of
           [] \<Rightarrow> None
         | d # ds \<Rightarrow>
             if d = CHR ''+'' then map_option int (parse_digits ds)
             else if d = CHR ''-'' then map_option (\<lambda>n. - int n) (parse_digits ds)
             else map_option int (parse_digits cs))
      else None)"

definition parse_unsigned :: "bool \<Rightarrow> string \<Rightarrow> parsed" where
  "parse_unsigned neg s =
     (let ip = takeWhile is_digit s; r = dropWhile is_digit s
      in case r of
           [] \<Rightarrow> if ip = [] then NaN else Dec neg ip 0
         | c # r' \<Rightarrow>
             if c = CHR ''.'' then
               (let fp = takeWhile is_digit r'; r'' = dropWhile is_digit r'
                in if ip = [] \<and> fp = [] then NaN
                   else (case parse_exponent r'' of
                           None \<Rightarrow> NaN
                         | Some e \<Rightarrow> Dec neg (ip @ fp) (e - int (length fp))))
             else if ip = [] then NaN
             else (case parse_exponent r of
                     None \<Rightarrow> NaN
                   | Some e \<Rightarrow> Dec neg ip e))"

definition parse_number :: "string \<Rightarrow> parsed" where
  "parse_number s =
     (let t = trim s
      in case t of
           [] \<Rightarrow> Dec False ''0'' 0
         | c # r \<Rightarrow>
             if c = CHR ''0'' \<and> r \<noteq> [] \<and> hd r \<in> {CHR ''x'', CHR ''X''} then parse_radix 16 (tl r)
             else if c = CHR ''0'' \<and> r \<noteq> [] \<and> hd r \<in> {CHR ''o'', CHR ''O''} then parse_radix 8 (tl r)
             else if c = CHR ''0'' \<and> r \<noteq> [] \<and> hd r \<in> {CHR ''b'', CHR ''B''} then parse_radix 2 (tl r)
             else if c = CHR ''+'' then parse_unsigned False r
             else if c = CHR ''-'' then parse_unsigned True r
             else parse_unsigned False t)"

text \<open>
  \<^verbatim>\<open>Number::toString\<close>: with \<open>k\<close> significant digits and the decimal point after
  \<open>n\<close> digits, the number is printed in full when \<open>- 6 < n \<le> 21\<close> and with an
  exponent otherwise; zero, of either sign, prints as \<open>0\<close>.
\<close>

definition number_to_string :: "parsed \<Rightarrow> string" where
  "number_to_string p =
     (case p of
        NaN \<Rightarrow> ''NaN''
      | Dec neg ms e \<Rightarrow>
          (let all_ds = dropWhile (\<lambda>c. c = CHR ''0'') ms
           in if all_ds = [] then ''0''
              else
                (let ds = rev (dropWhile (\<lambda>c. c = CHR ''0'') (rev all_ds));
                     k = int (length ds);
                     n = int (length all_ds) + e;
                     body =
                       (if k \<le> n \<and> n \<le> 21 then ds @ replicate (nat (n - k)) (CHR ''0'')
                        else if 0 < n \<and> n \<le> 21 then take (nat n) ds @ ''.'' @ drop (nat n) ds
                        else if - 6 < n \<and> n \<le> 0 then ''0.'' @ replicate (nat (- n)) (CHR ''0'') @ ds
                        else
                          (let x = n - 1;
                               es = (if x < 0 then ''-'' else ''+'') @ digits_of_nat (nat \<bar>x\<bar>)
                           in if k = 1 then ds @ ''e'' @ es
                              else [hd ds] @ ''.'' @ tl ds @ ''e'' @ es))
                 in (if neg then ''-'' else []) @ body)))"

definition Number4 :: "string \<Rightarrow> string" where
  "Number4 s = number_to_string (parse_number s)"

text \<open>
  \<^verbatim>\<open>const toYear = (dateStr) => (dateStr ? Number(String(dateStr).slice(0, 4)) : undefined);\<close>
\<close>

definition toYear :: "jsval \<Rightarrow> jsval" where
  "toYear dateStr =
     (if truthy dateStr then Num (Number4 (take 4 (js_String dateStr))) else Undefined)"

section \<open>Records of the two feeds and of the grid\<close>

text \<open>
  One element of the discovery feed, and the \<^verbatim>\<open>media\<close> object of a tracked status:
  the fields \<^verbatim>\<open>MediaPage\<close> reads. A field that is missing is \<open>Undefined\<close>. The
  elements of the discovery feed are objects: a \<^verbatim>\<open>null\<close> among them, on which the
  first field access raises, is no value of this type.
\<close>

record media =
  mediaId :: jsval
  externalMediaId :: jsval
  m_id :: jsval
  m_title :: jsval
  m_type :: jsval
  releaseDate :: jsval
  m_rating :: jsval
  posterUrl :: jsval
  backdropUrl :: jsval

text \<open>
  A user-media-status row; \<open>u_media = None\<close> when \<^verbatim>\<open>ums.media\<close> is null or missing.
  The filter on the wanted type drops such a row, as it drops a row that is itself
  \<^verbatim>\<open>null\<close>.
\<close>

record ums =
  u_id :: jsval
  u_media :: "media option"
  u_status :: jsval
  u_rating :: jsval

text \<open>An entry of the grid. \<open>i_raw\<close> is the \<^verbatim>\<open>_raw\<close> back pointer of an external item.\<close>

record item =
  i_id :: jsval
  i_title :: jsval
  i_type :: jsval
  i_year :: jsval
  i_rating :: jsval
  i_coverUrl :: jsval
  i_href :: jsval
  i_status :: jsval
  i_raw :: "media option"

definition empty_media :: media where
  "empty_media =
     \<lparr>mediaId = Undefined, externalMediaId = Undefined, m_id = Undefined,
      m_title = Undefined, m_type = Undefined, releaseDate = Undefined,
      m_rating = Undefined, posterUrl = Undefined, backdropUrl = Undefined\<rparr>"

text \<open>The object literal \<^verbatim>\<open>{}\<close> read as an entry: every field is undefined.\<close>

definition empty_item :: item where
  "empty_item =
     \<lparr>i_id = Undefined, i_title = Undefined, i_type = Undefined, i_year = Undefined,
      i_rating = Undefined, i_coverUrl = Undefined, i_href = Undefined,
      i_status = Undefined, i_raw = None\<rparr>"

subsection \<open>\<^verbatim>\<open>Map\<close>: keys in insertion order\<close>

text \<open>
  A JavaScript \<^verbatim>\<open>Map\<close> iterates its keys in the order of their first insertion;
  \<^verbatim>\<open>set\<close> on a key already there replaces the value where it stands.
\<close>

type_synonym 'v jsmap = "(string \<times> 'v) list"

fun map_set :: "string \<Rightarrow> 'v \<Rightarrow> 'v jsmap \<Rightarrow> 'v jsmap" where
  "map_set k v [] = [(k, v)]"
| "map_set k v ((k', v') # es) =
     (if k' = k then (k, v) # es else (k', v') # map_set k v es)"

fun map_get :: "'v jsmap \<Rightarrow> string \<Rightarrow> 'v option" where
  "map_get [] k = None"
| "map_get ((k', v') # es) k = (if k' = k then Some v' else map_get es k)"

definition map_has :: "'v jsmap \<Rightarrow> string \<Rightarrow> bool" where
  "map_has m k = (map_get m k \<noteq> None)"

subsection \<open>Cover images\<close>

definition TMDB_IMG_BASE :: string where
  "TMDB_IMG_BASE = ''https://image.tmdb.org/t/p/''"

definition isFullUrl :: "jsval \<Rightarrow> bool" where
  "isFullUrl v =
     (case v of
        Str s \<Rightarrow> toLowerCase (take 7 s) = ''http://'' \<or> toLowerCase (take 8 s) = ''https://''
      | _ \<Rightarrow> False)"

definition withSize :: "jsval \<Rightarrow> string \<Rightarrow> jsval" where
  "withSize path sz =
     (if \<not> truthy path then Null
      else if isFullUrl path then path
      else
        (let p = (if take 1 (js_String path) = ''/'' then js_String path
                  else ''/'' @ js_String path)
         in Str (TMDB_IMG_BASE @ sz @ p)))"

definition pickCover :: "jsval \<Rightarrow> jsval \<Rightarrow> jsval" where
  "pickCover posterPath backdropPath =
     js_or (withSize posterPath ''w342'')
       (js_or (withSize backdropPath ''w780'') (Str ''/next.svg''))"

section \<open>The external items and the alias map\<close>

text \<open>
  \<^verbatim>\<open>const idKey = m.mediaId || m.externalMediaId || m.id; const canonical = String(idKey);\<close>
\<close>

definition canonical_id :: "media \<Rightarrow> string" where
  "canonical_id m = js_String (js_or (mediaId m) (js_or (externalMediaId m) (m_id m)))"

definition lower_type :: "media \<Rightarrow> error + string" where
  "lower_type m = map_sum id toLowerCase (or_empty (m_type m))"

definition external_item :: "media \<Rightarrow> error + item" where
  "external_item m =
     (case lower_type m of
        Inl e \<Rightarrow> Inl e
      | Inr ty \<Rightarrow>
          (case or_empty (releaseDate m) of
             Inl e \<Rightarrow> Inl e
           | Inr rd \<Rightarrow>
               Inr \<lparr>i_id = Str (canonical_id m),
                    i_title = js_coalesce (m_title m) (Str ''Untitled''),
                    i_type = Str ty,
                    i_year = js_or (Str (take 4 rd)) Undefined,
                    i_rating = js_or (m_rating m) Undefined,
                    i_coverUrl = pickCover (posterUrl m) (backdropUrl m),
                    i_href = Str (''/collection/'' @ ty @ ''/'' @ canonical_id m),
                    i_status = Undefined,
                    i_raw = Some m\<rparr>))"

text \<open>
  The callback of \<^verbatim>\<open>external.map\<close> also fills \<^verbatim>\<open>externalMap\<close> and
  \<^verbatim>\<open>aliasMap\<close>; the three grow together, element by element.
\<close>

definition alias_external :: "media \<Rightarrow> string jsmap \<Rightarrow> string jsmap" where
  "alias_external m am =
     (let am1 = (if truthy (externalMediaId m)
                 then map_set (js_String (externalMediaId m)) (canonical_id m) am else am)
      in if truthy (mediaId m)
         then map_set (js_String (mediaId m)) (canonical_id m) am1 else am1)"

fun build_external ::
  "media list \<Rightarrow> item list \<times> item jsmap \<times> string jsmap \<Rightarrow>
   error + item list \<times> item jsmap \<times> string jsmap" where
  "build_external [] acc = Inr acc"
| "build_external (m # ms) (its, em, am) =
     (case external_item m of
        Inl e \<Rightarrow> Inl e
      | Inr it \<Rightarrow>
          build_external ms (its @ [it], map_set (canonical_id m) it em, alias_external m am))"

text \<open>\<^verbatim>\<open>for (const it of externalItems) itemsMap.set(String(it.id), { ...it });\<close>\<close>

definition initial_items :: "item list \<Rightarrow> item jsmap" where
  "initial_items its = foldl (\<lambda>im it. map_set (js_String (i_id it)) it im) [] its"

section \<open>Overlaying the tracked statuses\<close>

text \<open>\<^verbatim>\<open>raw.filter((ums) => ums?.media?.type === wantedType)\<close>\<close>

definition byWantedType :: "string \<Rightarrow> ums list \<Rightarrow> ums list" where
  "byWantedType wantedType raw =
     filter (\<lambda>u. case u_media u of None \<Rightarrow> False | Some m \<Rightarrow> m_type m = Str wantedType) raw"

text \<open>\<^verbatim>\<open>const m = ums.media ?? {};\<close>\<close>

definition media_of :: "ums \<Rightarrow> media" where
  "media_of u = (case u_media u of None \<Rightarrow> empty_media | Some m \<Rightarrow> m)"

text \<open>\<^verbatim>\<open>v ? String(v) : null\<close>, with \<open>None\<close> for \<^verbatim>\<open>null\<close>.\<close>

definition str_or_null :: "jsval \<Rightarrow> string option" where
  "str_or_null v = (if truthy v then Some (js_String v) else None)"

definition umsInternal :: "ums \<Rightarrow> string option" where
  "umsInternal u = str_or_null (mediaId (media_of u))"

definition umsExternal :: "ums \<Rightarrow> string option" where
  "umsExternal u = str_or_null (externalMediaId (media_of u))"

text \<open>
  \<^verbatim>\<open>if (k)\<close> on a string or null: the empty string is falsy as null is.
  \<open>present_in m k\<close> is \<^verbatim>\<open>k && m.has(k)\<close>.
\<close>

definition truthy_id :: "string option \<Rightarrow> string option" where
  "truthy_id k = (case k of None \<Rightarrow> None | Some s \<Rightarrow> if s = [] then None else Some s)"

definition present_in :: "'v jsmap \<Rightarrow> string option \<Rightarrow> bool" where
  "present_in m k = (case truthy_id k of None \<Rightarrow> False | Some s \<Rightarrow> map_has m s)"

definition lookup :: "'v jsmap \<Rightarrow> string option \<Rightarrow> 'v option" where
  "lookup m k = (case k of None \<Rightarrow> None | Some s \<Rightarrow> map_get m s)"

text \<open>The four identifier cases, in the order of the \<^verbatim>\<open>if\<close> chain.\<close>

definition resolve_canonical :: "item jsmap \<Rightarrow> string jsmap \<Rightarrow> ums \<Rightarrow> string option" where
  "resolve_canonical im am u =
     (if present_in im (umsInternal u) then umsInternal u
      else if present_in am (umsExternal u) then lookup am (umsExternal u)
      else if present_in im (umsExternal u) then umsExternal u
      else if present_in am (umsInternal u) then lookup am (umsInternal u)
      else None)"

subsection \<open>The title and year fallback\<close>

text \<open>\<^verbatim>\<open>(v || "").trim().toLowerCase()\<close>\<close>

definition title_key :: "jsval \<Rightarrow> error + string" where
  "title_key v = map_sum id (\<lambda>s. toLowerCase (trim s)) (or_empty v)"

text \<open>
  \<^verbatim>\<open>toYear(m.releaseDate) || (m.releaseDate ? String(m.releaseDate).slice(0,4) : undefined)\<close>
\<close>

definition year_key :: "jsval \<Rightarrow> jsval" where
  "year_key rd =
     js_or (toYear rd) (if truthy rd then Str (take 4 (js_String rd)) else Undefined)"

text \<open>
  \<^verbatim>\<open>yearKey == null || extYear == null || String(extYear) === String(yearKey)\<close>
\<close>

definition year_compatible :: "jsval \<Rightarrow> jsval \<Rightarrow> bool" where
  "year_compatible yearKey extYear =
     (nullish yearKey \<or> nullish extYear \<or> js_String extYear = js_String yearKey)"

text \<open>The loop over \<^verbatim>\<open>externalMap.entries()\<close>, left at the first hit.\<close>

fun fallback_search :: "string \<Rightarrow> jsval \<Rightarrow> item jsmap \<Rightarrow> error + string option" where
  "fallback_search titleKey yearKey [] = Inr None"
| "fallback_search titleKey yearKey ((extId, extItem) # es) =
     (case title_key (i_title extItem) of
        Inl e \<Rightarrow> Inl e
      | Inr extTitle \<Rightarrow>
          if extTitle \<noteq> [] \<and> extTitle = titleKey
             \<and> year_compatible yearKey (js_or (i_year extItem) Undefined)
          then Inr (Some extId)
          else fallback_search titleKey yearKey es)"

definition fallback_canonical :: "item jsmap \<Rightarrow> ums \<Rightarrow> error + string option" where
  "fallback_canonical em u =
     (case title_key (m_title (media_of u)) of
        Inl e \<Rightarrow> Inl e
      | Inr titleKey \<Rightarrow>
          if titleKey \<noteq> []
          then fallback_search titleKey (year_key (releaseDate (media_of u))) em
          else Inr None)"

subsection \<open>The three branches of the loop body\<close>

datatype target = ById string | ByFallback string | TrackedOnly string

text \<open>\<^verbatim>\<open>String(m.mediaId || m.externalMediaId || ums.id)\<close>\<close>

definition new_key :: "ums \<Rightarrow> string" where
  "new_key u =
     js_String (js_or (mediaId (media_of u)) (js_or (externalMediaId (media_of u)) (u_id u)))"

definition choose_target ::
  "item jsmap \<Rightarrow> item jsmap \<Rightarrow> string jsmap \<Rightarrow> ums \<Rightarrow> error + target" where
  "choose_target em im am u =
     (case truthy_id (resolve_canonical im am u) of
        Some c \<Rightarrow> Inr (ById c)
      | None \<Rightarrow>
          (case fallback_canonical em u of
             Inl e \<Rightarrow> Inl e
           | Inr fb \<Rightarrow>
               (case truthy_id fb of
                  Some c \<Rightarrow> Inr (ByFallback c)
                | None \<Rightarrow> Inr (TrackedOnly (new_key u)))))"

text \<open>\<^verbatim>\<open>`/collection/${(m.type || "").toLowerCase()}/${m.mediaId ?? ums.id}`\<close>\<close>

definition tracked_href :: "ums \<Rightarrow> error + string" where
  "tracked_href u =
     map_sum id
       (\<lambda>ty. ''/collection/'' @ ty @ ''/'' @ js_String (js_coalesce (mediaId (media_of u)) (u_id u)))
       (lower_type (media_of u))"

text \<open>
  \<^verbatim>\<open>if (umsExternal) aliasMap.set(umsExternal, c); if (umsInternal) aliasMap.set(umsInternal, c);\<close>
\<close>

definition set_alias :: "string option \<Rightarrow> string \<Rightarrow> string jsmap \<Rightarrow> string jsmap" where
  "set_alias k c am = (case truthy_id k of None \<Rightarrow> am | Some s \<Rightarrow> map_set s c am)"

definition register_aliases :: "ums \<Rightarrow> string \<Rightarrow> string jsmap \<Rightarrow> string jsmap" where
  "register_aliases u c am = set_alias (umsInternal u) c (set_alias (umsExternal u) c am)"

text \<open>\<^verbatim>\<open>itemsMap.get(c) || externalMap.get(c) || {}\<close>\<close>

definition base_of :: "item jsmap \<Rightarrow> item jsmap \<Rightarrow> string \<Rightarrow> item" where
  "base_of em im c =
     (case map_get im c of
        Some b \<Rightarrow> b
      | None \<Rightarrow> (case map_get em c of Some b \<Rightarrow> b | None \<Rightarrow> empty_item))"

definition merged_item :: "item \<Rightarrow> ums \<Rightarrow> string \<Rightarrow> item" where
  "merged_item base u h =
     base\<lparr>i_status := u_status u,
          i_rating := js_coalesce (u_rating u) (i_rating base),
          i_href := Str h\<rparr>"

definition merge_onto ::
  "item jsmap \<Rightarrow> ums \<Rightarrow> string \<Rightarrow> item jsmap \<times> string jsmap \<Rightarrow>
   error + item jsmap \<times> string jsmap" where
  "merge_onto em u c st =
     (case tracked_href u of
        Inl e \<Rightarrow> Inl e
      | Inr h \<Rightarrow>
          Inr (map_set c (merged_item (base_of em (fst st) c) u h) (fst st),
               register_aliases u c (snd st)))"

definition tracked_only_item :: "ums \<Rightarrow> string \<Rightarrow> error + item" where
  "tracked_only_item u newKey =
     (case lower_type (media_of u) of
        Inl e \<Rightarrow> Inl e
      | Inr ty \<Rightarrow>
          Inr \<lparr>i_id = Str newKey,
               i_title = js_coalesce (m_title (media_of u)) (Str []),
               i_type = Str ty,
               i_year = toYear (releaseDate (media_of u)),
               i_rating = u_rating u,
               i_coverUrl = pickCover (posterUrl (media_of u)) (backdropUrl (media_of u)),
               i_href = Str (''/collection/'' @ ty @ ''/''
                             @ js_String (js_coalesce (mediaId (media_of u)) (u_id u))),
               i_status = u_status u,
               i_raw = None\<rparr>)"

definition add_tracked_only ::
  "ums \<Rightarrow> string \<Rightarrow> item jsmap \<times> string jsmap \<Rightarrow> error + item jsmap \<times> string jsmap" where
  "add_tracked_only u newKey st =
     (case tracked_only_item u newKey of
        Inl e \<Rightarrow> Inl e
      | Inr newItem \<Rightarrow>
          Inr (map_set newKey newItem (fst st), register_aliases u newKey (snd st)))"

fun apply_target ::
  "item jsmap \<Rightarrow> ums \<Rightarrow> target \<Rightarrow> item jsmap \<times> string jsmap \<Rightarrow>
   error + item jsmap \<times> string jsmap" where
  "apply_target em u (ById c) st = merge_onto em u c st"
| "apply_target em u (ByFallback c) st = merge_onto em u c st"
| "apply_target em u (TrackedOnly k) st = add_tracked_only u k st"

definition overlay_step ::
  "item jsmap \<Rightarrow> ums \<Rightarrow> item jsmap \<times> string jsmap \<Rightarrow> error + item jsmap \<times> string jsmap" where
  "overlay_step em u st =
     (case choose_target em (fst st) (snd st) u of
        Inl e \<Rightarrow> Inl e
      | Inr tg \<Rightarrow> apply_target em u tg st)"

text \<open>\<^verbatim>\<open>for (const ums of byWantedType) { ... }\<close>\<close>

fun overlay_all ::
  "item jsmap \<Rightarrow> ums list \<Rightarrow> item jsmap \<times> string jsmap \<Rightarrow> error + item jsmap \<times> string jsmap" where
  "overlay_all em [] st = Inr st"
| "overlay_all em (u # us) st =
     (case overlay_step em u st of
        Inl e \<Rightarrow> Inl e
      | Inr st' \<Rightarrow> overlay_all em us st')"

text \<open>
  The branch each record took and the key it wrote, in the order of the loop: a
  by-product used to state what happened to a record; the loop itself is \<open>overlay_all\<close>.
\<close>

fun overlay_targets ::
  "item jsmap \<Rightarrow> ums list \<Rightarrow> item jsmap \<times> string jsmap \<Rightarrow> error + target list" where
  "overlay_targets em [] st = Inr []"
| "overlay_targets em (u # us) st =
     (case choose_target em (fst st) (snd st) u of
        Inl e \<Rightarrow> Inl e
      | Inr tg \<Rightarrow>
          (case apply_target em u tg st of
             Inl e \<Rightarrow> Inl e
           | Inr st' \<Rightarrow> map_sum id (\<lambda>tgs. tg # tgs) (overlay_targets em us st')))"

section \<open>The final list\<close>

text \<open>
  \<^verbatim>\<open>for (const it of externalItems) { const merged = itemsMap.get(String(it.id)); if (merged) items.push(merged); }\<close>
  \<^verbatim>\<open>for (const [k, v] of itemsMap.entries()) { if (!externalMap.has(k)) items.push(v); }\<close>
\<close>

definition external_part :: "item list \<Rightarrow> item jsmap \<Rightarrow> item list" where
  "external_part externalItems im =
     List.map_filter (\<lambda>it. map_get im (js_String (i_id it))) externalItems"

definition tracked_only_part :: "item jsmap \<Rightarrow> item jsmap \<Rightarrow> item list" where
  "tracked_only_part em im = map snd (filter (\<lambda>e. \<not> map_has em (fst e)) im)"

definition final_items :: "item list \<Rightarrow> item jsmap \<Rightarrow> item jsmap \<Rightarrow> item list" where
  "final_items externalItems em im = external_part externalItems im @ tracked_only_part em im"

text \<open>
  The whole routine, lines 393 to 494 of the page, as a function of the wanted type and
  of the two feeds: it reads nothing else, and the lists and maps it writes are the ones
  it builds, starting from empty ones.
\<close>

definition reconcile :: "string \<Rightarrow> media list \<Rightarrow> ums list \<Rightarrow> error + item list" where
  "reconcile wantedType external raw =
     (case build_external external ([], [], []) of
        Inl e \<Rightarrow> Inl e
      | Inr (externalItems, em, am) \<Rightarrow>
          (case overlay_all em (byWantedType wantedType raw) (initial_items externalItems, am) of
             Inl e \<Rightarrow> Inl e
           | Inr st \<Rightarrow> Inr (final_items externalItems em (fst st))))"

section \<open>Notions used in the statements\<close>

text \<open>The keys of a map, in iteration order.\<close>

abbreviation keys :: "'v jsmap \<Rightarrow> string list" where
  "keys m \<equiv> map fst m"

text \<open>
  The three values \<^verbatim>\<open>MediaPage\<close> builds before the loop, and the pair
  \<^verbatim>\<open>(itemsMap, aliasMap)\<close> once the loop has gone through the records \<open>pre\<close>:
  \<open>state_after external pre\<close> is the state in which the loop meets the record that
  follows \<open>pre\<close>.
\<close>

definition external_items :: "media list \<Rightarrow> item list" where
  "external_items external =
     (case build_external external ([], [], []) of Inl e \<Rightarrow> [] | Inr (its, em, am) \<Rightarrow> its)"

definition external_map :: "media list \<Rightarrow> item jsmap" where
  "external_map external =
     (case build_external external ([], [], []) of Inl e \<Rightarrow> [] | Inr (its, em, am) \<Rightarrow> em)"

definition state_after :: "media list \<Rightarrow> ums list \<Rightarrow> error + item jsmap \<times> string jsmap" where
  "state_after external pre =
     (case build_external external ([], [], []) of
        Inl e \<Rightarrow> Inl e
      | Inr (its, em, am) \<Rightarrow> overlay_all em pre (initial_items its, am))"

text \<open>The branches taken by the tracked records of a whole call, in the order of the loop.\<close>

definition reconcile_targets :: "string \<Rightarrow> media list \<Rightarrow> ums list \<Rightarrow> error + target list" where
  "reconcile_targets wantedType external raw =
     (case build_external external ([], [], []) of
        Inl e \<Rightarrow> Inl e
      | Inr (externalItems, em, am) \<Rightarrow>
          overlay_targets em (byWantedType wantedType raw) (initial_items externalItems, am))"

text \<open>
  The keys that tracked-only records wrote, in the order of the loop, and those of a list
  of keys that are not yet among \<open>seen\<close> when they come: the order in which a
  \<^verbatim>\<open>Map\<close> lists the keys appended to it.
\<close>

fun created_keys :: "target list \<Rightarrow> string list" where
  "created_keys [] = []"
| "created_keys (TrackedOnly k # tgs) = k # created_keys tgs"
| "created_keys (_ # tgs) = created_keys tgs"

fun first_seen :: "string list \<Rightarrow> string list \<Rightarrow> string list" where
  "first_seen seen [] = []"
| "first_seen seen (k # ks) =
     (if k \<in> set seen then first_seen seen ks else k # first_seen (k # seen) ks)"

fun target_key :: "target \<Rightarrow> string" where
  "target_key (ById c) = c"
| "target_key (ByFallback c) = c"
| "target_key (TrackedOnly k) = k"

text \<open>
  The tracked-only records of a call with the keys they were written under, in the order
  in which the loop met them.
\<close>

fun tracked_only_rows :: "(ums \<times> target) list \<Rightarrow> (ums \<times> string) list" where
  "tracked_only_rows [] = []"
| "tracked_only_rows ((u, TrackedOnly k) # ps) = (u, k) # tracked_only_rows ps"
| "tracked_only_rows (_ # ps) = tracked_only_rows ps"

subsection \<open>The resolution order in the words of the specification\<close>

text \<open>
  The specification lists four identifier cases in priority order: the internal id is an
  existing canonical id; the external id resolves through the alias map; the external id
  is an existing canonical id; the internal id resolves through the alias map. The first
  case that succeeds gives the canonical id. A new id is taken from the internal id if
  present, else the external id, else the row id.
\<close>

fun first_some :: "'a option list \<Rightarrow> 'a option" where
  "first_some [] = None"
| "first_some (None # xs) = first_some xs"
| "first_some (Some x # xs) = Some x"

definition in_items :: "item jsmap \<Rightarrow> string option \<Rightarrow> string option" where
  "in_items im k =
     (case k of None \<Rightarrow> None | Some s \<Rightarrow> if s \<in> set (keys im) then Some s else None)"

definition via_alias :: "string jsmap \<Rightarrow> string option \<Rightarrow> string option" where
  "via_alias am k = (case k of None \<Rightarrow> None | Some s \<Rightarrow> map_of am s)"

definition spec_new_key :: "ums \<Rightarrow> string" where
  "spec_new_key u =
     (case umsInternal u of
        Some i \<Rightarrow> i
      | None \<Rightarrow> (case umsExternal u of Some x \<Rightarrow> x | None \<Rightarrow> js_String (u_id u)))"

text \<open>
  The fallback comparison in the words of the specification. A title is compared trimmed
  and in lower case, and a title that is missing counts as empty. The release year of a
  tracked record is the first four characters of its release date, and a record without a
  date has none; an external item has the year it carries, if any. An item is accepted
  when the two titles are equal and not empty and the two years are equal, unless one of
  them is missing.
\<close>

definition spec_title :: "jsval \<Rightarrow> string" where
  "spec_title v = (case v of Str s \<Rightarrow> toLowerCase (trim s) | _ \<Rightarrow> [])"

definition spec_year :: "jsval \<Rightarrow> string option" where
  "spec_year d = (if truthy d then Some (take 4 (js_String d)) else None)"

definition item_year :: "item \<Rightarrow> string option" where
  "item_year it = (if truthy (i_year it) then Some (js_String (i_year it)) else None)"

definition years_agree :: "string option \<Rightarrow> string option \<Rightarrow> bool" where
  "years_agree a b =
     (case a of None \<Rightarrow> True | Some x \<Rightarrow> (case b of None \<Rightarrow> True | Some y \<Rightarrow> x = y))"

definition spec_fallback_matches :: "ums \<Rightarrow> item \<Rightarrow> bool" where
  "spec_fallback_matches u it \<longleftrightarrow>
     spec_title (m_title (media_of u)) \<noteq> [] \<and>
     spec_title (i_title it) = spec_title (m_title (media_of u)) \<and>
     years_agree (spec_year (releaseDate (media_of u))) (item_year it)"

text \<open>
  A release date whose year is read back as written: \<^verbatim>\<open>Number\<close> turns its first four
  characters into no number other than zero, or into a number that prints as the same
  four characters, as it does for the years 1000 to 9999.
\<close>

definition year_reads_back :: "jsval \<Rightarrow> bool" where
  "year_reads_back d \<longleftrightarrow>
     Number4 (take 4 (js_String d)) = take 4 (js_String d) \<or>
     Number4 (take 4 (js_String d)) = ''NaN'' \<or>
     Number4 (take 4 (js_String d)) = ''0''"

text \<open>A title that is missing, empty or made of white space only.\<close>

definition blank_title :: "jsval \<Rightarrow> bool" where
  "blank_title v = (case v of Str s \<Rightarrow> trim s = [] | _ \<Rightarrow> \<not> truthy v)"

text \<open>
  The fields of an entry that a merge must leave alone: two entries agree on id, title,
  type, year, cover and back pointer.
\<close>

definition same_core :: "item \<Rightarrow> item \<Rightarrow> bool" where
  "same_core a b \<longleftrightarrow>
     i_id a = i_id b \<and> i_title a = i_title b \<and> i_type a = i_type b \<and>
     i_year a = i_year b \<and> i_coverUrl a = i_coverUrl b \<and> i_raw a = i_raw b"

text \<open>A tracked record that carries an internal or an external identifier.\<close>

definition identified :: "ums \<Rightarrow> bool" where
  "identified u \<longleftrightarrow> umsInternal u \<noteq> None \<or> umsExternal u \<noteq> None"

text \<open>
  The new keys of a list of tracked records never hit a key that is already there:
  each record is identified (its new key is then an id that cases 1 and 3 have just
  looked for in vain) or its row id is none of \<open>seen\<close>, the external canonical ids and
  the new keys of the records before it.
\<close>

fun rows_fresh :: "string list \<Rightarrow> ums list \<Rightarrow> bool" where
  "rows_fresh seen [] = True"
| "rows_fresh seen (u # us) =
     ((identified u \<or> new_key u \<notin> set seen) \<and> rows_fresh (new_key u # seen) us)"

text \<open>
  What a map shows of a record and the branch it took: the key it wrote is there, and
  under the key of a tracked-only record stands an entry with the core of the entry
  built from that record.
\<close>

definition recorded :: "item jsmap \<Rightarrow> ums \<times> target \<Rightarrow> bool" where
  "recorded im p \<longleftrightarrow>
     target_key (snd p) \<in> set (keys im) \<and>
     (case snd p of
        TrackedOnly k \<Rightarrow>
          (case tracked_only_item (fst p) k of
             Inl e \<Rightarrow> False
           | Inr it \<Rightarrow> (case map_get im k of None \<Rightarrow> False | Some v \<Rightarrow> same_core v it))
      | _ \<Rightarrow> True)"

text \<open>
  A field on which \<^verbatim>\<open>(v || "")\<close> is a string: a string, or a falsy value. A media
  object is well typed when its title, type and release date are such fields.
\<close>

definition string_or_falsy :: "jsval \<Rightarrow> bool" where
  "string_or_falsy v = (case v of Str s \<Rightarrow> True | _ \<Rightarrow> \<not> truthy v)"

definition well_typed_media :: "media \<Rightarrow> bool" where
  "well_typed_media m \<longleftrightarrow>
     string_or_falsy (m_title m) \<and> string_or_falsy (m_type m) \<and> string_or_falsy (releaseDate m)"

subsection \<open>Invariants of the two phases\<close>

text \<open>
  While the external items are built: the keys of \<^verbatim>\<open>externalMap\<close> are distinct, an
  entry carries its key as id, the keys are the ids of the items built so far, and an
  alias points to a non-empty key of the map.
\<close>

definition build_inv :: "item list \<times> item jsmap \<times> string jsmap \<Rightarrow> bool" where
  "build_inv acc \<longleftrightarrow>
     (case acc of (its, em, am) \<Rightarrow>
        distinct (keys em) \<and>
        (\<forall>e \<in> set em. i_id (snd e) = Str (fst e)) \<and>
        set (keys em) = set (map (\<lambda>it. js_String (i_id it)) its) \<and>
        (\<forall>a \<in> set am. snd a \<noteq> [] \<and> snd a \<in> set (keys em)))"

text \<open>
  During the loop: the keys of \<^verbatim>\<open>itemsMap\<close> are distinct, an entry carries its key as
  id, every key of \<^verbatim>\<open>externalMap\<close> is a key of \<^verbatim>\<open>itemsMap\<close>, and an alias points to
  a non-empty key of \<^verbatim>\<open>itemsMap\<close>.
\<close>

definition overlay_inv :: "item jsmap \<Rightarrow> item jsmap \<times> string jsmap \<Rightarrow> bool" where
  "overlay_inv em st \<longleftrightarrow>
     distinct (keys (fst st)) \<and>
     (\<forall>e \<in> set (fst st). i_id (snd e) = Str (fst e)) \<and>
     set (keys em) \<subseteq> set (keys (fst st)) \<and>
     (\<forall>a \<in> set (snd st). snd a \<noteq> [] \<and> snd a \<in> set (keys (fst st)))"

subsection \<open>Sample feeds\<close>

text \<open>
  Two discovered shows, the second known by its external id only, and tracked rows that
  take each branch of the loop.
\<close>

definition sample_media :: "jsval \<Rightarrow> jsval \<Rightarrow> jsval \<Rightarrow> jsval \<Rightarrow> media" where
  "sample_media mid xid t rd =
     empty_media\<lparr>mediaId := mid, externalMediaId := xid, m_title := t,
                 m_type := Str ''TV'', releaseDate := rd\<rparr>"

definition sample_ums :: "jsval \<Rightarrow> media \<Rightarrow> jsval \<Rightarrow> jsval \<Rightarrow> ums" where
  "sample_ums rid m st rt = \<lparr>u_id = rid, u_media = Some m, u_status = st, u_rating = rt\<rparr>"

definition sample_external :: "media list" where
  "sample_external =
     [sample_media (Str ''7'') Undefined (Str ''Lost'') (Str ''2004-09-22''),
      sample_media Undefined (Str ''x8'') (Str ''Dark'') (Str ''2017-12-01'')]"

definition row_lost :: ums where
  "row_lost = sample_ums (Num ''100'') (sample_media (Str ''7'') Undefined Undefined Undefined)
                (Str ''WATCHING'') Undefined"

definition row_dark :: ums where
  "row_dark = sample_ums (Num ''101'') (sample_media Undefined Undefined (Str '' dark '') (Str ''2017''))
                (Str ''COMPLETED'') (Num ''4'')"

definition row_fargo :: ums where
  "row_fargo = sample_ums (Num ''102'') (sample_media (Str ''9'') (Str ''x9'') (Str ''Fargo'') Undefined)
                 (Str ''PLANNED'') Undefined"

definition row_fargo_again :: ums where
  "row_fargo_again = sample_ums (Num ''103'') (sample_media Undefined (Str ''x9'') Undefined Undefined)
                       (Str ''COMPLETED'') (Num ''5'')"

definition sample_tracked :: "ums list" where
  "sample_tracked = [row_lost, row_dark, row_fargo]"

text \<open>
  Three rows of which the last has no identifier and carries, as row id, the internal id
  of the first.
\<close>

definition row_alpha :: ums where
  "row_alpha = sample_ums (Num ''200'') (sample_media (Str ''5'') Undefined (Str ''Alpha'') Undefined)
                 (Str ''WATCHING'') Undefined"

definition row_beta :: ums where
  "row_beta = sample_ums (Num ''201'') (sample_media (Str ''9'') Undefined (Str ''Beta'') Undefined)
                (Str ''PLANNED'') Undefined"

definition row_gamma :: ums where
  "row_gamma = sample_ums (Num ''5'') (sample_media Undefined Undefined (Str ''Gamma'') Undefined)
                 (Str ''COMPLETED'') Undefined"

text \<open>
  A row of the wanted type whose title is two blanks, and a media object and a row that
  carry nothing but their type.
\<close>

definition row_blank :: ums where
  "row_blank = sample_ums (Num ''100'') (sample_media Undefined Undefined (Str ''  '') Undefined)
                 (Str ''COMPLETED'') Undefined"

definition bare_media :: media where
  "bare_media = sample_media Undefined Undefined Undefined Undefined"

definition row_bare :: ums where
  "row_bare = sample_ums (Num ''100'') bare_media Undefined Undefined"

text \<open>The state in which the loop meets the first tracked record of the sample feed.\<close>

definition sample_state :: "item jsmap \<times> string jsmap" where
  "sample_state = projr (state_after sample_external [])"

section \<open>Maps, the loop invariant and the order of keys\<close>

lemma map_get_map_set:
  "map_get (map_set k v m) k' = (if k' = k then Some v else map_get m k')"
  by (induction m) auto

lemma map_get_None_iff: "map_get m k = None \<longleftrightarrow> k \<notin> set (keys m)"
  by (induction m) (auto split: if_splits)

lemma map_has_iff: "map_has m k \<longleftrightarrow> k \<in> set (keys m)"
  by (simp add: map_has_def map_get_None_iff)

lemma map_get_SomeD: "map_get m k = Some v \<Longrightarrow> (k, v) \<in> set m"
  by (induction m) (auto split: if_splits)

lemma map_get_distinct:
  "distinct (keys m) \<Longrightarrow> (k, v) \<in> set m \<Longrightarrow> map_get m k = Some v"
  by (induction m) (auto simp: rev_image_eqI)

lemma keys_map_set:
  "keys (map_set k v m) = (if k \<in> set (keys m) then keys m else keys m @ [k])"
  by (induction m) (auto split: if_splits)

lemma distinct_map_set: "distinct (keys m) \<Longrightarrow> distinct (keys (map_set k v m))"
  by (simp add: keys_map_set)

lemma set_map_set_subset: "set (map_set k v m) \<subseteq> insert (k, v) (set m)"
  by (induction m) (auto split: if_splits)

lemma in_map_setD: "(k', v') \<in> set (map_set k v m) \<Longrightarrow> (k' = k \<and> v' = v) \<or> (k', v') \<in> set m"
  using set_map_set_subset by fastforce

lemma truthy_String_nonempty: "truthy v \<Longrightarrow> js_String v \<noteq> []"
  by (cases v) auto

lemma truthy_id_str_or_null [simp]: "truthy_id (str_or_null v) = str_or_null v"
  by (simp add: truthy_id_def str_or_null_def truthy_String_nonempty)

lemma truthy_id_Some: "truthy_id k = Some c \<longleftrightarrow> k = Some c \<and> c \<noteq> []"
  by (auto simp: truthy_id_def split: option.splits)

lemma truthy_id_None: "truthy_id k = None \<longleftrightarrow> k = None \<or> k = Some []"
  by (auto simp: truthy_id_def split: option.splits)

lemma overlay_inv_aliasD:
  "overlay_inv em st \<Longrightarrow> (a, c) \<in> set (snd st) \<Longrightarrow> c \<noteq> [] \<and> c \<in> set (keys (fst st))"
  unfolding overlay_inv_def using snd_conv by (metis (no_types, lifting))

lemma overlay_inv_idD:
  "overlay_inv em st \<Longrightarrow> (k, v) \<in> set (fst st) \<Longrightarrow> i_id v = Str k"
  unfolding overlay_inv_def using fst_conv snd_conv by (metis (no_types, lifting))

lemma present_in_iff:
  "present_in m k \<longleftrightarrow> (\<exists>s. k = Some s \<and> s \<noteq> [] \<and> s \<in> set (keys m))"
  by (auto simp: present_in_def truthy_id_def map_has_iff split: option.splits)

lemma lookup_SomeD: "lookup m k = Some c \<Longrightarrow> \<exists>s. k = Some s \<and> (s, c) \<in> set m"
  by (auto simp: lookup_def split: option.splits dest: map_get_SomeD)

lemma resolve_in_keys:
  assumes "overlay_inv em (im, am)" and "resolve_canonical im am u = Some c"
  shows "c \<noteq> [] \<and> c \<in> set (keys im)"
proof -
  have al: "lookup am k = Some c \<Longrightarrow> c \<noteq> [] \<and> c \<in> set (keys im)" for k
  proof -
    assume l: "lookup am k = Some c"
    obtain s where "(s, c) \<in> set am"
      using lookup_SomeD[OF l] by blast
    then show ?thesis
      using overlay_inv_aliasD[OF assms(1)] by simp
  qed
  have pr: "present_in im k \<Longrightarrow> k = Some c \<Longrightarrow> c \<noteq> [] \<and> c \<in> set (keys im)" for k
    unfolding present_in_iff by blast
  consider (c1) "present_in im (umsInternal u)" "umsInternal u = Some c"
    | (c2) "lookup am (umsExternal u) = Some c"
    | (c3) "present_in im (umsExternal u)" "umsExternal u = Some c"
    | (c4) "lookup am (umsInternal u) = Some c"
    using assms(2) unfolding resolve_canonical_def by (simp split: if_splits)
  then show ?thesis
    using al pr by cases blast+
qed

lemma fallback_search_in_keys:
  "fallback_search t y em = Inr (Some c) \<Longrightarrow> c \<in> set (keys em)"
  by (induction em) (auto split: sum.splits if_splits)

lemma fallback_canonical_in_keys:
  "fallback_canonical em u = Inr (Some c) \<Longrightarrow> c \<in> set (keys em)"
  by (auto simp: fallback_canonical_def split: sum.splits if_splits dest: fallback_search_in_keys)

lemma choose_target_ById:
  assumes "overlay_inv em (im, am)" and "choose_target em im am u = Inr (ById c)"
  shows "c \<noteq> [] \<and> c \<in> set (keys im)"
  using assms resolve_in_keys[OF assms(1)]
  by (auto simp: choose_target_def truthy_id_Some split: option.splits sum.splits)

lemma choose_target_ByFallback:
  assumes "choose_target em im am u = Inr (ByFallback c)"
  shows "c \<noteq> [] \<and> c \<in> set (keys em)"
  using assms
  by (auto simp: choose_target_def truthy_id_Some split: option.splits sum.splits
           dest: fallback_canonical_in_keys)

lemma choose_target_TrackedOnly:
  "choose_target em im am u = Inr (TrackedOnly k) \<Longrightarrow> k = new_key u"
  by (auto simp: choose_target_def split: option.splits sum.splits)

lemma set_aliasD:
  "(a, c') \<in> set (set_alias k c am) \<Longrightarrow> (c' = c \<and> truthy_id k = Some a) \<or> (a, c') \<in> set am"
  by (auto simp: set_alias_def split: option.splits dest: in_map_setD)

lemma register_aliasesD:
  "(a, c') \<in> set (register_aliases u c am) \<Longrightarrow>
     (c' = c \<and> (umsInternal u = Some a \<or> umsExternal u = Some a)) \<or> (a, c') \<in> set am"
  by (auto simp: register_aliases_def truthy_id_Some dest!: set_aliasD)

lemma new_key_nonempty:
  "umsInternal u = Some a \<or> umsExternal u = Some a \<Longrightarrow> new_key u \<noteq> []"
  by (auto simp: new_key_def umsInternal_def umsExternal_def str_or_null_def js_or_def
                 truthy_String_nonempty split: if_splits)

lemma merged_item_id [simp]: "i_id (merged_item b u h) = i_id b"
  by (simp add: merged_item_def)

lemma base_of_in: "c \<in> set (keys im) \<Longrightarrow> \<exists>b. map_get im c = Some b \<and> base_of em im c = b"
  by (cases "map_get im c") (auto simp: base_of_def map_get_None_iff)

lemma merge_onto_inv:
  assumes inv: "overlay_inv em st" and c: "c \<noteq> []" "c \<in> set (keys (fst st))"
    and m: "merge_onto em u c st = Inr st'"
  shows "overlay_inv em st' \<and> keys (fst st') = keys (fst st)"
proof -
  obtain h where h: "tracked_href u = Inr h"
    and st': "st' = (map_set c (merged_item (base_of em (fst st) c) u h) (fst st),
                    register_aliases u c (snd st))"
    using m by (auto simp: merge_onto_def split: sum.splits)
  obtain b where b: "map_get (fst st) c = Some b" "base_of em (fst st) c = b"
    using base_of_in[OF c(2)] by blast
  have idb: "i_id b = Str c"
    using inv map_get_SomeD[OF b(1)] by (fastforce simp: overlay_inv_def)
  have k: "keys (fst st') = keys (fst st)"
    using c(2) by (simp add: st' keys_map_set)
  have ids: "\<forall>e \<in> set (fst st'). i_id (snd e) = Str (fst e)"
    using inv idb b(2) by (auto simp: st' overlay_inv_def dest!: in_map_setD)
  have al: "\<forall>a \<in> set (snd st'). snd a \<noteq> [] \<and> snd a \<in> set (keys (fst st))"
  proof
    fix a assume "a \<in> set (snd st')"
    then have "(fst a, snd a) \<in> set (register_aliases u c (snd st))"
      by (simp add: st')
    then have "snd a = c \<or> (fst a, snd a) \<in> set (snd st)"
      by (blast dest: register_aliasesD)
    then show "snd a \<noteq> [] \<and> snd a \<in> set (keys (fst st))"
      using inv c unfolding overlay_inv_def by auto
  qed
  show ?thesis
    using inv k ids al by (simp add: overlay_inv_def)
qed

lemma add_tracked_only_inv:
  assumes inv: "overlay_inv em st" and m: "add_tracked_only u (new_key u) st = Inr st'"
  shows "overlay_inv em st' \<and>
         keys (fst st') = (if new_key u \<in> set (keys (fst st)) then keys (fst st)
                           else keys (fst st) @ [new_key u])"
proof -
  obtain it where it: "tracked_only_item u (new_key u) = Inr it"
    and st': "st' = (map_set (new_key u) it (fst st), register_aliases u (new_key u) (snd st))"
    using m by (auto simp: add_tracked_only_def split: sum.splits)
  have idn: "i_id it = Str (new_key u)"
    using it by (auto simp: tracked_only_item_def split: sum.splits)
  have k: "keys (fst st') = (if new_key u \<in> set (keys (fst st)) then keys (fst st)
                           else keys (fst st) @ [new_key u])"
    by (simp add: st' keys_map_set)
  have ids: "\<forall>e \<in> set (fst st'). i_id (snd e) = Str (fst e)"
    using inv idn by (auto simp: st' overlay_inv_def dest!: in_map_setD)
  have al: "\<forall>a \<in> set (snd st'). snd a \<noteq> [] \<and> snd a \<in> set (keys (fst st'))"
  proof
    fix a assume "a \<in> set (snd st')"
    then have "(fst a, snd a) \<in> set (register_aliases u (new_key u) (snd st))"
      by (simp add: st')
    then consider
        (new) "snd a = new_key u" "umsInternal u = Some (fst a) \<or> umsExternal u = Some (fst a)"
      | (old) "(fst a, snd a) \<in> set (snd st)"
      by (blast dest: register_aliasesD)
    then show "snd a \<noteq> [] \<and> snd a \<in> set (keys (fst st'))"
    proof cases
      case new
      then show ?thesis
        using new_key_nonempty[of u "fst a"] k by auto
    next
      case old
      then have "snd a \<noteq> [] \<and> snd a \<in> set (keys (fst st))"
        using inv unfolding overlay_inv_def by auto
      then show ?thesis using k by auto
    qed
  qed
  have d: "distinct (keys (fst st'))"
    using inv by (simp add: st' overlay_inv_def distinct_map_set)
  have sub: "set (keys em) \<subseteq> set (keys (fst st'))"
    using inv k by (auto simp: overlay_inv_def)
  show ?thesis
    using d ids sub al k by (simp add: overlay_inv_def)
qed

lemma apply_target_inv:
  assumes inv: "overlay_inv em st"
    and ch: "choose_target em (fst st) (snd st) u = Inr tg"
    and ap: "apply_target em u tg st = Inr st'"
  shows "overlay_inv em st' \<and> keys (fst st') = keys (fst st) @ first_seen (keys (fst st)) (created_keys [tg])"
proof (cases tg)
  case (ById c)
  have "c \<noteq> [] \<and> c \<in> set (keys (fst st))"
    using choose_target_ById[of em "fst st" "snd st" u c] inv ch ById by simp
  then show ?thesis
    using merge_onto_inv[OF inv _ _ ap[unfolded ById apply_target.simps]] ById by simp
next
  case (ByFallback c)
  have "c \<noteq> [] \<and> c \<in> set (keys em)"
    using choose_target_ByFallback[of em "fst st" "snd st" u c] ch ByFallback by simp
  moreover have "set (keys em) \<subseteq> set (keys (fst st))"
    using inv unfolding overlay_inv_def by blast
  ultimately have "c \<noteq> [] \<and> c \<in> set (keys (fst st))" by blast
  then show ?thesis
    using merge_onto_inv[OF inv _ _ ap[unfolded ByFallback apply_target.simps]] ByFallback by simp
next
  case (TrackedOnly k)
  have k: "k = new_key u"
    using choose_target_TrackedOnly[of em "fst st" "snd st" u k] ch TrackedOnly by simp
  show ?thesis
    using add_tracked_only_inv[OF inv ap[unfolded TrackedOnly apply_target.simps k]] TrackedOnly k
    by simp
qed

lemma first_seen_cong: "set A = set B \<Longrightarrow> first_seen A xs = first_seen B xs"
proof (induction xs arbitrary: A B)
  case Nil
  then show ?case by simp
next
  case (Cons k xs)
  have "first_seen (k # A) xs = first_seen (k # B) xs"
    by (rule Cons.IH) (simp add: Cons.prems)
  moreover have "first_seen A xs = first_seen B xs"
    by (rule Cons.IH) (rule Cons.prems)
  ultimately show ?case using Cons.prems by simp
qed

lemma first_seen_append:
  "first_seen seen (ks @ ks') = first_seen seen ks @ first_seen (seen @ first_seen seen ks) ks'"
proof (induction ks arbitrary: seen)
  case Nil
  then show ?case by simp
next
  case (Cons k ks)
  show ?case
  proof (cases "k \<in> set seen")
    case True
    then show ?thesis using Cons.IH[of seen] by simp
  next
    case False
    have "first_seen (k # seen @ first_seen (k # seen) ks) ks'
          = first_seen (seen @ k # first_seen (k # seen) ks) ks'"
      by (rule first_seen_cong) auto
    then show ?thesis using False Cons.IH[of "k # seen"] by simp
  qed
qed

lemma created_keys_Cons: "created_keys (tg # tgs) = created_keys [tg] @ created_keys tgs"
  by (cases tg) auto

lemma overlay_targets_inv:
  assumes "overlay_inv em st" and "overlay_all em us st = Inr st'"
  shows "\<exists>tgs. overlay_targets em us st = Inr tgs \<and> length tgs = length us \<and> overlay_inv em st' \<and>
           keys (fst st') = keys (fst st) @ first_seen (keys (fst st)) (created_keys tgs)"
  using assms
proof (induction us arbitrary: st)
  case Nil
  then show ?case by simp
next
  case (Cons u us)
  obtain tg st1 where ch: "choose_target em (fst st) (snd st) u = Inr tg"
    and ap: "apply_target em u tg st = Inr st1" and rest: "overlay_all em us st1 = Inr st'"
    using Cons.prems(2) by (auto simp: overlay_step_def split: sum.splits)
  have s1: "overlay_inv em st1"
    and k1: "keys (fst st1) = keys (fst st) @ first_seen (keys (fst st)) (created_keys [tg])"
    using apply_target_inv[OF Cons.prems(1) ch ap] by blast+
  obtain tgs where tgs: "overlay_targets em us st1 = Inr tgs" "length tgs = length us"
    "overlay_inv em st'"
    "keys (fst st') = keys (fst st1) @ first_seen (keys (fst st1)) (created_keys tgs)"
    using Cons.IH[OF s1 rest] by blast
  have "overlay_targets em (u # us) st = Inr (tg # tgs)"
    using ch ap tgs(1) by simp
  moreover have "keys (fst st') = keys (fst st) @ first_seen (keys (fst st)) (created_keys (tg # tgs))"
    using tgs(4) k1 created_keys_Cons[of tg tgs] first_seen_append[of "keys (fst st)" "created_keys [tg]" "created_keys tgs"]
    by simp
  ultimately show ?case using tgs(2,3) by simp
qed

lemma external_item_id: "external_item m = Inr it \<Longrightarrow> i_id it = Str (canonical_id m)"
  by (auto simp: external_item_def split: sum.splits)

lemma canonical_id_nonempty:
  "truthy (externalMediaId m) \<or> truthy (mediaId m) \<Longrightarrow> canonical_id m \<noteq> []"
  by (auto simp: canonical_id_def js_or_def truthy_String_nonempty)

lemma alias_externalD:
  "(a, c) \<in> set (alias_external m am) \<Longrightarrow> (c = canonical_id m \<and> c \<noteq> []) \<or> (a, c) \<in> set am"
  using canonical_id_nonempty[of m]
  by (auto simp: alias_external_def Let_def split: if_splits dest!: in_map_setD)

lemma build_invD:
  assumes "build_inv (its, em, am)"
  shows "distinct (keys em)"
    and "\<forall>e \<in> set em. i_id (snd e) = Str (fst e)"
    and "set (keys em) = set (map (\<lambda>it. js_String (i_id it)) its)"
    and "\<forall>a \<in> set am. snd a \<noteq> [] \<and> snd a \<in> set (keys em)"
  using assms unfolding build_inv_def prod.case by blast+

lemma build_inv_step:
  assumes "build_inv (its, em, am)" and it: "external_item m = Inr it"
  shows "build_inv (its @ [it], map_set (canonical_id m) it em, alias_external m am)"
proof -
  let ?em = "map_set (canonical_id m) it em"
  have id: "i_id it = Str (canonical_id m)" by (rule external_item_id[OF it])
  have d: "distinct (keys ?em)"
    using assms(1) by (simp add: build_inv_def distinct_map_set)
  have ids: "\<forall>e \<in> set ?em. i_id (snd e) = Str (fst e)"
  proof
    fix e assume "e \<in> set ?em"
    then have "(fst e, snd e) \<in> set ?em" by simp
    then have "(fst e = canonical_id m \<and> snd e = it) \<or> (fst e, snd e) \<in> set em"
      by (rule in_map_setD)
    then show "i_id (snd e) = Str (fst e)"
      using id assms(1) by (auto simp: build_inv_def)
  qed
  have ks: "set (keys ?em) = insert (canonical_id m) (set (keys em))"
    by (auto simp: keys_map_set)
  have k: "set (keys ?em) = set (map (\<lambda>it. js_String (i_id it)) (its @ [it]))"
    using assms(1) id unfolding ks by (auto simp: build_inv_def)
  have al: "\<forall>a \<in> set (alias_external m am). snd a \<noteq> [] \<and> snd a \<in> set (keys ?em)"
  proof
    fix a assume "a \<in> set (alias_external m am)"
    then have "(fst a, snd a) \<in> set (alias_external m am)" by simp
    then have "(snd a = canonical_id m \<and> snd a \<noteq> []) \<or> (fst a, snd a) \<in> set am"
      by (rule alias_externalD)
    then show "snd a \<noteq> [] \<and> snd a \<in> set (keys ?em)"
      using assms(1) unfolding ks by (auto simp: build_inv_def)
  qed
  show ?thesis
    unfolding build_inv_def using d ids k al by simp
qed

lemma build_external_acc:
  assumes "build_external ms acc = Inr acc'" and "build_inv acc"
  shows "build_inv acc' \<and>
         map i_id (fst acc') = map i_id (fst acc) @ map (\<lambda>m. Str (canonical_id m)) ms"
  using assms
proof (induction ms arbitrary: acc)
  case Nil
  then show ?case by simp
next
  case (Cons m ms)
  obtain its em am where acc: "acc = (its, em, am)" by (cases acc) auto
  obtain it where it: "external_item m = Inr it"
    and rest: "build_external ms (its @ [it], map_set (canonical_id m) it em, alias_external m am)
               = Inr acc'"
    using Cons.prems(1) unfolding acc by (auto split: sum.splits)
  have "build_inv (its @ [it], map_set (canonical_id m) it em, alias_external m am)"
    using build_inv_step[OF _ it] Cons.prems(2) unfolding acc by simp
  from Cons.IH[OF rest this] show ?case
    using external_item_id[OF it] by (simp add: acc)
qed

lemma build_external_facts:
  assumes "build_external external ([], [], []) = Inr (its, em, am)"
  shows "build_inv (its, em, am)"
    and "map i_id its = map (\<lambda>m. Str (canonical_id m)) external"
proof -
  have "build_inv ([], [], [])" by (simp add: build_inv_def)
  from build_external_acc[OF assms this]
  show "build_inv (its, em, am)" and "map i_id its = map (\<lambda>m. Str (canonical_id m)) external"
    by simp_all
qed

lemma initial_items_acc:
  assumes "distinct (keys im0)" and "\<forall>e \<in> set im0. i_id (snd e) = Str (fst e)"
    and "\<forall>it \<in> set its. i_id it = Str (js_String (i_id it))"
  shows "distinct (keys (foldl (\<lambda>im it. map_set (js_String (i_id it)) it im) im0 its)) \<and>
         (\<forall>e \<in> set (foldl (\<lambda>im it. map_set (js_String (i_id it)) it im) im0 its).
             i_id (snd e) = Str (fst e)) \<and>
         set (keys (foldl (\<lambda>im it. map_set (js_String (i_id it)) it im) im0 its))
           = set (keys im0) \<union> set (map (\<lambda>it. js_String (i_id it)) its)"
  using assms
proof (induction its arbitrary: im0)
  case Nil
  then show ?case by simp
next
  case (Cons it its)
  let ?im1 = "map_set (js_String (i_id it)) it im0"
  have d: "distinct (keys ?im1)" using Cons.prems(1) by (rule distinct_map_set)
  have ids: "\<forall>e \<in> set ?im1. i_id (snd e) = Str (fst e)"
  proof
    fix e assume "e \<in> set ?im1"
    then have "(fst e, snd e) \<in> set ?im1" by simp
    then have "(fst e = js_String (i_id it) \<and> snd e = it) \<or> (fst e, snd e) \<in> set im0"
      by (rule in_map_setD)
    then show "i_id (snd e) = Str (fst e)"
      using Cons.prems(2,3) by auto
  qed
  have r: "\<forall>it \<in> set its. i_id it = Str (js_String (i_id it))"
    using Cons.prems(3) by simp
  have ks: "set (keys ?im1) = insert (js_String (i_id it)) (set (keys im0))"
    by (auto simp: keys_map_set)
  show ?case
    using Cons.IH[OF d ids r] ks by simp
qed

lemma initial_inv:
  assumes "build_external external ([], [], []) = Inr (its, em, am)"
  shows "overlay_inv em (initial_items its, am)"
    and "set (keys (initial_items its)) = set (map canonical_id external)"
    and "set (keys em) = set (map canonical_id external)"
proof -
  have b: "build_inv (its, em, am)"
    and i: "map i_id its = map (\<lambda>m. Str (canonical_id m)) external"
    using build_external_facts[OF assms] by blast+
  have js: "map (\<lambda>it. js_String (i_id it)) its = map canonical_id external"
  proof -
    have "map (\<lambda>it. js_String (i_id it)) its = map js_String (map i_id its)" by simp
    also have "\<dots> = map canonical_id external" unfolding i by simp
    finally show ?thesis .
  qed
  have str: "\<forall>it \<in> set its. i_id it = Str (js_String (i_id it))"
  proof
    fix it assume "it \<in> set its"
    then have "i_id it \<in> set (map i_id its)" by simp
    then obtain m where "i_id it = Str (canonical_id m)" unfolding i by auto
    then show "i_id it = Str (js_String (i_id it))" by simp
  qed
  have ii: "distinct (keys (initial_items its))"
    "\<forall>e \<in> set (initial_items its). i_id (snd e) = Str (fst e)"
    "set (keys (initial_items its)) = set (map (\<lambda>it. js_String (i_id it)) its)"
    using initial_items_acc[of "[]" its, OF _ _ str] unfolding initial_items_def by simp_all
  show k: "set (keys (initial_items its)) = set (map canonical_id external)"
    using ii(3) unfolding js .
  show ke: "set (keys em) = set (map canonical_id external)"
    using build_invD(3)[OF b] unfolding js .
  have al: "\<forall>a \<in> set am. snd a \<noteq> [] \<and> snd a \<in> set (keys (initial_items its))"
  proof -
    have e: "set (keys (initial_items its)) = set (keys em)"
      using k ke by simp
    have "\<forall>a \<in> set am. snd a \<noteq> [] \<and> snd a \<in> set (keys em)"
      by (rule build_invD(4)[OF b])
    then show ?thesis unfolding e .
  qed
  show "overlay_inv em (initial_items its, am)"
    unfolding overlay_inv_def using ii(1,2) al k ke by simp
qed

lemma reconcile_run:
  assumes "reconcile w external raw = Inr out"
  obtains its em am st where
    "build_external external ([], [], []) = Inr (its, em, am)"
    "overlay_all em (byWantedType w raw) (initial_items its, am) = Inr st"
    "out = final_items its em (fst st)"
  using assms unfolding reconcile_def by (auto split: sum.splits prod.splits)

lemma external_part_ids:
  assumes "\<forall>it \<in> set its. \<exists>v. map_get im (js_String (i_id it)) = Some v \<and> i_id v = i_id it"
  shows "map i_id (external_part its im) = map i_id its"
  using assms unfolding external_part_def
  by (induction its) auto

lemma tracked_only_part_ids:
  assumes "\<forall>e \<in> set im. i_id (snd e) = Str (fst e)"
  shows "map i_id (tracked_only_part em im) = map Str (filter (\<lambda>k. k \<notin> set (keys em)) (keys im))"
  using assms unfolding tracked_only_part_def
  by (induction im) (auto simp: map_has_iff)

lemma first_seen_fresh: "k \<in> set (first_seen seen ks) \<Longrightarrow> k \<notin> set seen"
  by (induction seen ks rule: first_seen.induct) (auto split: if_splits)

lemma first_seen_subset: "set (first_seen seen ks) \<subseteq> set ks"
  by (induction seen ks rule: first_seen.induct) auto

lemma distinct_first_seen: "distinct (first_seen seen ks)"
  by (induction seen ks rule: first_seen.induct) (auto dest: first_seen_fresh)

lemma filter_first_seen:
  "set seen = S \<Longrightarrow> filter (\<lambda>k. k \<notin> S) (first_seen seen ks) = first_seen seen ks"
  by (auto simp: filter_id_conv dest: first_seen_fresh)

lemma final_ids:
  assumes b: "build_external external ([], [], []) = Inr (its, em, am)"
    and o: "overlay_all em us (initial_items its, am) = Inr st"
  shows "\<exists>tgs. overlay_targets em us (initial_items its, am) = Inr tgs \<and>
           length tgs = length us \<and> overlay_inv em st \<and>
           map i_id (final_items its em (fst st))
             = map Str (map canonical_id external
                        @ first_seen (map canonical_id external) (created_keys tgs))"
proof -
  let ?cids = "map canonical_id external"
  have inv0: "overlay_inv em (initial_items its, am)"
    and k0: "set (keys (initial_items its)) = set ?cids"
    and ke: "set (keys em) = set ?cids"
    using initial_inv[OF b] by blast+
  have i: "map i_id its = map (\<lambda>m. Str (canonical_id m)) external"
    using build_external_facts(2)[OF b] .
  obtain tgs where tgs: "overlay_targets em us (initial_items its, am) = Inr tgs"
    "length tgs = length us" "overlay_inv em st"
    "keys (fst st) = keys (initial_items its)
                     @ first_seen (keys (initial_items its)) (created_keys tgs)"
    using overlay_targets_inv[OF inv0 o] by auto
  have fs: "first_seen (keys (initial_items its)) (created_keys tgs) = first_seen ?cids (created_keys tgs)"
    by (rule first_seen_cong) (rule k0)
  have ids: "\<forall>e \<in> set (fst st). i_id (snd e) = Str (fst e)"
    and d: "distinct (keys (fst st))"
    using tgs(3) unfolding overlay_inv_def by blast+
  have ext: "map i_id (external_part its (fst st)) = map i_id its"
  proof (rule external_part_ids, rule ballI)
    fix it assume "it \<in> set its"
    then have "i_id it \<in> set (map i_id its)" by simp
    then obtain m where m: "m \<in> set external" "i_id it = Str (canonical_id m)"
      unfolding i by auto
    have "canonical_id m \<in> set (keys (fst st))"
      using m(1) k0 unfolding tgs(4) by auto
    then obtain v where v: "map_get (fst st) (canonical_id m) = Some v"
      using map_get_None_iff[of "fst st" "canonical_id m"] by (cases "map_get (fst st) (canonical_id m)") auto
    have "i_id v = Str (canonical_id m)"
      using overlay_inv_idD[OF tgs(3) map_get_SomeD[OF v]] .
    then show "\<exists>v. map_get (fst st) (js_String (i_id it)) = Some v \<and> i_id v = i_id it"
      using v m(2) by simp
  qed
  have "filter (\<lambda>k. k \<notin> set (keys em)) (keys (fst st)) = first_seen ?cids (created_keys tgs)"
    unfolding tgs(4) fs ke using k0 by (simp add: filter_first_seen)
  then have tr: "map i_id (tracked_only_part em (fst st)) = map Str (first_seen ?cids (created_keys tgs))"
    using tracked_only_part_ids[OF ids, of em] by simp
  have "map i_id (final_items its em (fst st))
          = map Str (?cids @ first_seen ?cids (created_keys tgs))"
    unfolding final_items_def using ext tr i by simp
  then show ?thesis using tgs(1,2,3) by blast
qed

lemma map_get_map_of: "map_get m k = map_of m k"
  by (induction m) auto

lemma state_after_inv:
  assumes "state_after external pre = Inr st"
  shows "overlay_inv (external_map external) st"
proof -
  obtain its em am where b: "build_external external ([], [], []) = Inr (its, em, am)"
    and o: "overlay_all em pre (initial_items its, am) = Inr st"
    using assms unfolding state_after_def by (auto split: sum.splits prod.splits)
  have "overlay_inv em st"
    using overlay_targets_inv[OF initial_inv(1)[OF b] o] by blast
  then show ?thesis
    unfolding external_map_def b by simp
qed

lemma str_or_null_nonempty: "str_or_null v = Some s \<Longrightarrow> s \<noteq> []"
  by (auto simp: str_or_null_def truthy_String_nonempty split: if_splits)

lemma present_in_items:
  "present_in im (str_or_null v) \<longleftrightarrow> in_items im (str_or_null v) \<noteq> None"
  by (auto simp: present_in_iff in_items_def split: option.splits dest: str_or_null_nonempty)

lemma present_in_alias:
  "present_in am (str_or_null v) \<longleftrightarrow> via_alias am (str_or_null v) \<noteq> None"
  by (auto simp: present_in_def via_alias_def map_has_def map_get_map_of split: option.splits)

lemma first_some4:
  "first_some [a, b, c, d] =
     (if a \<noteq> None then a else if b \<noteq> None then b else if c \<noteq> None then c else d)"
  by (cases a; cases b; cases c; cases d) auto

lemma in_items_eq: "in_items im k \<noteq> None \<Longrightarrow> in_items im k = k"
  by (auto simp: in_items_def split: option.splits if_splits)

lemma lookup_via_alias: "lookup am k = via_alias am k"
  by (simp add: lookup_def via_alias_def map_get_map_of split: option.splits)

lemma resolve_canonical_first_some:
  "resolve_canonical im am u =
     first_some [in_items im (umsInternal u), via_alias am (umsExternal u),
                 in_items im (umsExternal u), via_alias am (umsInternal u)]"
proof -
  have p1: "present_in im (umsInternal u) \<longleftrightarrow> in_items im (umsInternal u) \<noteq> None"
    and p2: "present_in am (umsExternal u) \<longleftrightarrow> via_alias am (umsExternal u) \<noteq> None"
    and p3: "present_in im (umsExternal u) \<longleftrightarrow> in_items im (umsExternal u) \<noteq> None"
    and p4: "present_in am (umsInternal u) \<longleftrightarrow> via_alias am (umsInternal u) \<noteq> None"
    unfolding umsInternal_def umsExternal_def
    by (rule present_in_items present_in_alias)+
  show ?thesis
  proof (cases "in_items im (umsInternal u) = None")
    case False
    then show ?thesis
      unfolding resolve_canonical_def first_some4 p1 using in_items_eq[OF False] by simp
  next
    case n1: True
    show ?thesis
    proof (cases "via_alias am (umsExternal u) = None")
      case False
      then show ?thesis
        unfolding resolve_canonical_def first_some4 p1 p2 lookup_via_alias using n1 by simp
    next
      case n2: True
      show ?thesis
      proof (cases "in_items im (umsExternal u) = None")
        case False
        then show ?thesis
          unfolding resolve_canonical_def first_some4 p1 p2 p3 lookup_via_alias
          using n1 n2 in_items_eq[OF False] by simp
      next
        case n3: True
        show ?thesis
          unfolding resolve_canonical_def first_some4 p1 p2 p3 p4 lookup_via_alias
          using n1 n2 n3 by simp
      qed
    qed
  qed
qed

lemma new_key_spec: "new_key u = spec_new_key u"
  by (simp add: new_key_def spec_new_key_def umsInternal_def umsExternal_def str_or_null_def js_or_def)

lemma resolve_truthy:
  assumes "overlay_inv em (im, am)"
  shows "truthy_id (resolve_canonical im am u) = resolve_canonical im am u"
proof (cases "resolve_canonical im am u")
  case None
  then show ?thesis by (simp add: truthy_id_def)
next
  case (Some c)
  then show ?thesis
    using resolve_in_keys[OF assms Some] by (simp add: truthy_id_def)
qed

lemma fallback_search_find:
  "fallback_search t y em = Inr r \<Longrightarrow>
     r = map_option fst
           (find (\<lambda>e. t \<noteq> [] \<and> title_key (i_title (snd e)) = Inr t \<and>
                       year_compatible y (js_or (i_year (snd e)) Undefined)) em)"
  by (induction em) (auto split: sum.splits if_splits)

lemma year_key_absent: "\<not> truthy rd \<Longrightarrow> year_key rd = Undefined"
  by (simp add: year_key_def toYear_def js_or_def)

lemma year_key_malformed:
  "truthy rd \<Longrightarrow> \<not> truthy (toYear rd) \<Longrightarrow> year_key rd = Str (take 4 (js_String rd))"
  by (simp add: year_key_def js_or_def)

lemma year_key_numeric:
  "truthy rd \<Longrightarrow> truthy (toYear rd) \<Longrightarrow> year_key rd = Num (Number4 (take 4 (js_String rd)))"
  by (simp add: year_key_def js_or_def toYear_def)

lemma title_key_spec: "title_key v = Inr t \<Longrightarrow> t = spec_title v"
  by (cases v) (auto simp: title_key_def or_empty_def js_or_def spec_title_def toLowerCase_def trim_def
                     split: if_splits)

lemma spec_title_key: "spec_title v \<noteq> [] \<Longrightarrow> title_key v = Inr (spec_title v)"
  by (cases v) (auto simp: title_key_def or_empty_def js_or_def spec_title_def toLowerCase_def trim_def)

lemma year_test_spec:
  assumes "year_reads_back rd"
  shows "year_compatible (year_key rd) (js_or (i_year it) Undefined)
           \<longleftrightarrow> years_agree (spec_year rd) (item_year it)"
proof (cases "truthy rd")
  case False
  then show ?thesis
    by (simp add: year_key_absent year_compatible_def spec_year_def years_agree_def)
next
  case True
  have e: "js_String (year_key rd) = take 4 (js_String rd) \<and> \<not> nullish (year_key rd)"
  proof (cases "truthy (toYear rd)")
    case False
    then show ?thesis using year_key_malformed[OF True] by simp
  next
    case t: True
    then have "Number4 (take 4 (js_String rd)) = take 4 (js_String rd)"
      using assms True unfolding year_reads_back_def toYear_def by auto
    then show ?thesis using year_key_numeric[OF True t] by simp
  qed
  show ?thesis
  proof (cases "truthy (i_year it)")
    case False
    then show ?thesis
      by (simp add: js_or_def year_compatible_def item_year_def years_agree_def split: option.splits)
  next
    case y: True
    then have "\<not> nullish (i_year it)" by (cases "i_year it") auto
    then show ?thesis
      using e y True
      by (auto simp: js_or_def year_compatible_def item_year_def spec_year_def years_agree_def)
  qed
qed

lemma fallback_canonical_spec:
  assumes "fallback_canonical em u = Inr r"
    and y: "year_reads_back (releaseDate (media_of u))"
  shows "r = map_option fst (find (\<lambda>e. spec_fallback_matches u (snd e)) em)"
proof -
  obtain t where t: "title_key (m_title (media_of u)) = Inr t"
    using assms(1) by (auto simp: fallback_canonical_def split: sum.splits)
  have ts: "t = spec_title (m_title (media_of u))"
    by (rule title_key_spec[OF t])
  show ?thesis
  proof (cases "t = []")
    case True
    then have "r = None" using assms(1) t by (simp add: fallback_canonical_def)
    moreover have "find (\<lambda>e. spec_fallback_matches u (snd e)) em = None"
      using True ts by (simp add: spec_fallback_matches_def find_None_iff)
    ultimately show ?thesis by simp
  next
    case False
    then have "fallback_search t (year_key (releaseDate (media_of u))) em = Inr r"
      using assms(1) t by (simp add: fallback_canonical_def)
    from fallback_search_find[OF this]
    have r: "r = map_option fst
           (find (\<lambda>e. t \<noteq> [] \<and> title_key (i_title (snd e)) = Inr t \<and>
                       year_compatible (year_key (releaseDate (media_of u)))
                         (js_or (i_year (snd e)) Undefined)) em)" .
    have eq: "(t \<noteq> [] \<and> title_key (i_title (snd e)) = Inr t \<and>
               year_compatible (year_key (releaseDate (media_of u))) (js_or (i_year (snd e)) Undefined))
              \<longleftrightarrow> spec_fallback_matches u (snd e)" for e
    proof -
      have "title_key (i_title (snd e)) = Inr t \<longleftrightarrow> spec_title (i_title (snd e)) = t"
        using False title_key_spec[of "i_title (snd e)" t] spec_title_key[of "i_title (snd e)"]
        by auto
      then show ?thesis
        using False ts year_test_spec[OF y, of "snd e"]
        by (simp add: spec_fallback_matches_def)
    qed
    show ?thesis unfolding r eq ..
  qed
qed

lemma find_mapped:
  "map_option fst (find (\<lambda>e. P (snd e)) (map (\<lambda>x. (f x, x)) xs)) = map_option f (find P xs)"
  by (induction xs) auto

lemma map_set_fresh: "k \<notin> set (keys m) \<Longrightarrow> map_set k v m = m @ [(k, v)]"
  by (induction m) auto

lemma build_external_distinct_acc:
  assumes "build_external ms (its0, em0, am0) = Inr (its, em, am)"
    and "distinct (keys em0 @ map canonical_id ms)"
  shows "\<exists>new. its = its0 @ new \<and> em = em0 @ map (\<lambda>it. (js_String (i_id it), it)) new \<and>
               list_all2 (\<lambda>m it. external_item m = Inr it) ms new"
  using assms
proof (induction ms arbitrary: its0 em0 am0)
  case Nil
  then show ?case by simp
next
  case (Cons m ms)
  obtain it where it: "external_item m = Inr it"
    and rest: "build_external ms (its0 @ [it], map_set (canonical_id m) it em0, alias_external m am0)
               = Inr (its, em, am)"
    using Cons.prems(1) by (auto split: sum.splits)
  have fresh: "canonical_id m \<notin> set (keys em0)"
    using Cons.prems(2) by auto
  have ms: "map_set (canonical_id m) it em0 = em0 @ [(canonical_id m, it)]"
    by (rule map_set_fresh[OF fresh])
  have d: "distinct (keys (map_set (canonical_id m) it em0) @ map canonical_id ms)"
    using Cons.prems(2) unfolding ms by auto
  obtain new where new: "its = (its0 @ [it]) @ new"
    "em = map_set (canonical_id m) it em0 @ map (\<lambda>it. (js_String (i_id it), it)) new"
    "list_all2 (\<lambda>m it. external_item m = Inr it) ms new"
    using Cons.IH[OF rest d] by blast
  have "its = its0 @ (it # new)" using new(1) by simp
  moreover have "em = em0 @ map (\<lambda>it. (js_String (i_id it), it)) (it # new)"
    using new(2) external_item_id[OF it] unfolding ms by simp
  moreover have "list_all2 (\<lambda>m it. external_item m = Inr it) (m # ms) (it # new)"
    using new(3) it by simp
  ultimately show ?case by blast
qed

lemma external_map_distinct:
  assumes "build_external external ([], [], []) = Inr (its, em, am)"
    and "distinct (map canonical_id external)"
  shows "em = map (\<lambda>it. (js_String (i_id it), it)) its"
    and "list_all2 (\<lambda>m it. external_item m = Inr it) external its"
  using build_external_distinct_acc[OF assms(1)] assms(2) by auto

lemma state_after_build:
  assumes "state_after external pre = Inr st"
  obtains its em am where "build_external external ([], [], []) = Inr (its, em, am)"
    "external_map external = em" "external_items external = its"
    "overlay_all em pre (initial_items its, am) = Inr st"
  using assms unfolding state_after_def external_map_def external_items_def
  by (auto split: sum.splits prod.splits)

lemma external_item_year:
  assumes "external_item m = Inr it"
  shows "\<exists>s. or_empty (releaseDate m) = Inr s \<and>
             i_year it = (if take 4 s = [] then Undefined else Str (take 4 s))"
proof -
  obtain ty s where "lower_type m = Inr ty" and s: "or_empty (releaseDate m) = Inr s"
    and "i_year it = js_or (Str (take 4 s)) Undefined"
    using assms unfolding external_item_def by (auto split: sum.splits)
  then show ?thesis by (simp add: js_or_def)
qed

lemma keys_map_set_subset: "set (keys m) \<subseteq> set (keys (map_set k v m))"
  by (auto simp: keys_map_set)

lemma keys_set_alias: "set (keys am) \<subseteq> set (keys (set_alias k c am))"
proof (cases "truthy_id k")
  case None
  then show ?thesis by (simp add: set_alias_def)
next
  case (Some s)
  then show ?thesis
    using keys_map_set_subset[of am s c] by (simp add: set_alias_def)
qed

lemma keys_register_aliases: "set (keys am) \<subseteq> set (keys (register_aliases u c am))"
  unfolding register_aliases_def
  using keys_set_alias[of am "umsExternal u" c]
    keys_set_alias[of "set_alias (umsExternal u) c am" "umsInternal u" c]
  by (rule subset_trans)

lemma apply_target_keys_mono:
  assumes "apply_target em u tg st = Inr st'"
  shows "set (keys (fst st)) \<subseteq> set (keys (fst st')) \<and> set (keys (snd st)) \<subseteq> set (keys (snd st'))"
proof -
  have m: "merge_onto em u c st = Inr st' \<Longrightarrow> ?thesis" for c
  proof -
    assume "merge_onto em u c st = Inr st'"
    then obtain v where "st' = (map_set c v (fst st), register_aliases u c (snd st))"
      by (auto simp: merge_onto_def split: sum.splits)
    then show ?thesis
      using keys_map_set_subset[of "fst st" c v] keys_register_aliases[of "snd st" u c] by simp
  qed
  have a: "add_tracked_only u k st = Inr st' \<Longrightarrow> ?thesis" for k
  proof -
    assume "add_tracked_only u k st = Inr st'"
    then obtain v where "st' = (map_set k v (fst st), register_aliases u k (snd st))"
      by (auto simp: add_tracked_only_def split: sum.splits)
    then show ?thesis
      using keys_map_set_subset[of "fst st" k v] keys_register_aliases[of "snd st" u k] by simp
  qed
  show ?thesis using assms m a by (cases tg) simp_all
qed

lemma overlay_all_keys_mono:
  assumes "overlay_all em us st = Inr st'"
  shows "set (keys (fst st)) \<subseteq> set (keys (fst st')) \<and> set (keys (snd st)) \<subseteq> set (keys (snd st'))"
  using assms
proof (induction us arbitrary: st)
  case Nil
  then show ?case by simp
next
  case (Cons u us)
  obtain tg st1 where ap: "apply_target em u tg st = Inr st1"
    and rest: "overlay_all em us st1 = Inr st'"
    using Cons.prems by (auto simp: overlay_step_def split: sum.splits)
  show ?case
    using apply_target_keys_mono[OF ap] Cons.IH[OF rest] by blast
qed

lemma map_get_set_alias:
  "truthy_id k = Some a \<Longrightarrow> map_get (set_alias k c am) a = Some c"
  by (simp add: set_alias_def map_get_map_set)

lemma map_get_set_alias_other:
  "map_get am a = Some c \<Longrightarrow> map_get (set_alias k c am) a = Some c"
  by (simp add: set_alias_def map_get_map_set split: option.splits)

lemma str_or_null_truthy_id: "str_or_null v = Some a \<Longrightarrow> truthy_id (str_or_null v) = Some a"
  using truthy_id_str_or_null[of v] by simp

lemma map_get_register_aliases:
  assumes "umsInternal u = Some a \<or> umsExternal u = Some a"
  shows "map_get (register_aliases u c am) a = Some c"
proof -
  have ti: "umsInternal u = Some a \<Longrightarrow> truthy_id (umsInternal u) = Some a"
    unfolding umsInternal_def by (rule str_or_null_truthy_id)
  have te: "umsExternal u = Some a \<Longrightarrow> truthy_id (umsExternal u) = Some a"
    unfolding umsExternal_def by (rule str_or_null_truthy_id)
  show ?thesis
    using assms ti te map_get_set_alias map_get_set_alias_other
    unfolding register_aliases_def by metis
qed

lemma overlay_step_apply:
  assumes "choose_target em (fst st) (snd st) u = Inr tg"
  shows "overlay_step em u st = apply_target em u tg st"
  using assms by (simp add: overlay_step_def)

lemma merge_onto_result:
  assumes inv: "overlay_inv em (im, am)" and c: "c \<in> set (keys im)"
    and m: "merge_onto em u c (im, am) = Inr (im', am')"
  shows "\<exists>b ty. map_get im c = Some b \<and> lower_type (media_of u) = Inr ty \<and>
           map_get im' c = Some (b\<lparr>i_status := u_status u,
                i_rating := (if nullish (u_rating u) then i_rating b else u_rating u),
                i_href := Str (''/collection/'' @ ty @ ''/''
                   @ js_String (if nullish (mediaId (media_of u)) then u_id u
                                else mediaId (media_of u)))\<rparr>) \<and>
           (\<forall>k. k \<noteq> c \<longrightarrow> map_get im' k = map_get im k) \<and> keys im' = keys im"
proof -
  obtain b where b: "map_get im c = Some b" "base_of em im c = b"
    using base_of_in[OF c] by blast
  obtain h where h: "tracked_href u = Inr h"
    and im': "im' = map_set c (merged_item b u h) im"
    using m b(2) by (auto simp: merge_onto_def split: sum.splits)
  obtain ty where ty: "lower_type (media_of u) = Inr ty"
    and hh: "h = ''/collection/'' @ ty @ ''/''
                 @ js_String (js_coalesce (mediaId (media_of u)) (u_id u))"
    using h unfolding tracked_href_def by (cases "lower_type (media_of u)") auto
  have mi: "merged_item b u h = b\<lparr>i_status := u_status u,
                i_rating := (if nullish (u_rating u) then i_rating b else u_rating u),
                i_href := Str (''/collection/'' @ ty @ ''/''
                   @ js_String (if nullish (mediaId (media_of u)) then u_id u
                                else mediaId (media_of u)))\<rparr>"
    unfolding merged_item_def hh js_coalesce_def by simp
  have g: "map_get im' c = Some (merged_item b u h)"
    and o: "\<forall>k. k \<noteq> c \<longrightarrow> map_get im' k = map_get im k"
    and k: "keys im' = keys im"
    unfolding im' using c by (simp_all add: map_get_map_set keys_map_set)
  show ?thesis
    using b(1) ty g o k unfolding mi by blast
qed

lemma resolve_shared:
  assumes inv: "overlay_inv em (im, am)"
    and sh: "(umsInternal r2 = Some a \<or> umsExternal r2 = Some a)" and a: "a \<in> set (keys am)"
  shows "\<exists>c. choose_target em im am r2 = Inr (ById c)"
proof -
  have ne: "a \<noteq> []"
    using sh str_or_null_nonempty unfolding umsInternal_def umsExternal_def by blast
  have "via_alias am (Some a) \<noteq> None"
    using a by (simp add: via_alias_def map_get_map_of[symmetric] map_get_None_iff)
  then have "via_alias am (umsExternal r2) \<noteq> None \<or> via_alias am (umsInternal r2) \<noteq> None"
    using sh by auto
  then have "first_some [in_items im (umsInternal r2), via_alias am (umsExternal r2),
                 in_items im (umsExternal r2), via_alias am (umsInternal r2)] \<noteq> None"
    unfolding first_some4 by auto
  then obtain c where c: "resolve_canonical im am r2 = Some c"
    unfolding resolve_canonical_first_some by blast
  have "truthy_id (resolve_canonical im am r2) = Some c"
    using resolve_truthy[OF inv, of r2] c by simp
  then show ?thesis
    by (simp add: choose_target_def)
qed

lemma or_empty_ok: "string_or_falsy v \<Longrightarrow> \<exists>s. or_empty v = Inr s"
  by (cases v) (auto simp: string_or_falsy_def or_empty_def js_or_def)

lemma title_key_ok: "string_or_falsy v \<Longrightarrow> \<exists>t. title_key v = Inr t"
  using or_empty_ok[of v] by (auto simp: title_key_def)

lemma lower_type_ok: "string_or_falsy (m_type m) \<Longrightarrow> \<exists>ty. lower_type m = Inr ty"
  using or_empty_ok[of "m_type m"] by (auto simp: lower_type_def)

lemma external_item_ok:
  assumes "well_typed_media m"
  shows "\<exists>it. external_item m = Inr it \<and> string_or_falsy (i_title it)"
proof -
  obtain ty where ty: "lower_type m = Inr ty"
    using lower_type_ok[of m] assms unfolding well_typed_media_def by blast
  obtain rd where rd: "or_empty (releaseDate m) = Inr rd"
    using or_empty_ok[of "releaseDate m"] assms unfolding well_typed_media_def by blast
  have "string_or_falsy (js_coalesce (m_title m) (Str ''Untitled''))"
    using assms unfolding well_typed_media_def
    by (cases "m_title m") (auto simp: js_coalesce_def string_or_falsy_def)
  then show ?thesis
    unfolding external_item_def ty rd by simp
qed

lemma build_external_ok:
  assumes "\<forall>m \<in> set ms. well_typed_media m"
    and "\<forall>e \<in> set em0. string_or_falsy (i_title (snd e))"
  shows "\<exists>its em am. build_external ms (its0, em0, am0) = Inr (its, em, am) \<and>
           (\<forall>e \<in> set em. string_or_falsy (i_title (snd e)))"
  using assms
proof (induction ms arbitrary: its0 em0 am0)
  case Nil
  then show ?case by simp
next
  case (Cons m ms)
  obtain it where it: "external_item m = Inr it" "string_or_falsy (i_title it)"
    using external_item_ok[of m] Cons.prems(1) by auto
  have e: "\<forall>e \<in> set (map_set (canonical_id m) it em0). string_or_falsy (i_title (snd e))"
  proof
    fix e assume "e \<in> set (map_set (canonical_id m) it em0)"
    then have "(fst e, snd e) \<in> set (map_set (canonical_id m) it em0)" by simp
    then have "(fst e = canonical_id m \<and> snd e = it) \<or> (fst e, snd e) \<in> set em0"
      by (rule in_map_setD)
    then show "string_or_falsy (i_title (snd e))"
      using it(2) Cons.prems(2) by auto
  qed
  have r: "\<forall>m \<in> set ms. well_typed_media m" using Cons.prems(1) by simp
  show ?case
    using Cons.IH[OF r e, of "its0 @ [it]" "alias_external m am0"] it(1) by simp
qed

lemma fallback_search_ok:
  assumes "\<forall>e \<in> set em. string_or_falsy (i_title (snd e))"
  shows "\<exists>r. fallback_search t y em = Inr r"
  using assms
proof (induction em)
  case Nil
  then show ?case by simp
next
  case (Cons e em)
  obtain k it where e: "e = (k, it)" by (cases e) auto
  obtain t' where t': "title_key (i_title it) = Inr t'"
    using title_key_ok[of "i_title it"] Cons.prems unfolding e by auto
  obtain r where r: "fallback_search t y em = Inr r"
    using Cons.IH Cons.prems by auto
  show ?case
    unfolding e using t' r by simp
qed

lemma choose_target_ok:
  assumes "\<forall>e \<in> set em. string_or_falsy (i_title (snd e))"
    and "string_or_falsy (m_title (media_of u))"
  shows "\<exists>tg. choose_target em im am u = Inr tg"
proof -
  obtain t where t: "title_key (m_title (media_of u)) = Inr t"
    using title_key_ok[OF assms(2)] by blast
  obtain r where r: "fallback_search t (year_key (releaseDate (media_of u))) em = Inr r"
    using fallback_search_ok[OF assms(1)] by blast
  have "\<exists>fb. fallback_canonical em u = Inr fb"
    unfolding fallback_canonical_def t using r by simp
  then show ?thesis
    unfolding choose_target_def by (auto split: option.splits)
qed

lemma apply_target_ok:
  assumes "string_or_falsy (m_type (media_of u))"
  shows "\<exists>st'. apply_target em u tg st = Inr st'"
proof -
  obtain ty where ty: "lower_type (media_of u) = Inr ty"
    using lower_type_ok[OF assms] by blast
  have m: "\<exists>st'. merge_onto em u c st = Inr st'" for c
    unfolding merge_onto_def tracked_href_def ty by simp
  have a: "\<exists>st'. add_tracked_only u k st = Inr st'" for k
    unfolding add_tracked_only_def tracked_only_item_def ty by simp
  show ?thesis using m a by (cases tg) simp_all
qed

lemma overlay_all_ok:
  assumes "\<forall>e \<in> set em. string_or_falsy (i_title (snd e))"
    and "\<forall>u \<in> set us. string_or_falsy (m_title (media_of u)) \<and> string_or_falsy (m_type (media_of u))"
  shows "\<exists>st'. overlay_all em us st = Inr st'"
  using assms(2)
proof (induction us arbitrary: st)
  case Nil
  then show ?case by simp
next
  case (Cons u us)
  have tu: "string_or_falsy (m_title (media_of u))" and ty: "string_or_falsy (m_type (media_of u))"
    using Cons.prems by simp_all
  have r: "\<forall>u \<in> set us. string_or_falsy (m_title (media_of u)) \<and> string_or_falsy (m_type (media_of u))"
    using Cons.prems by simp
  obtain tg where tg: "choose_target em (fst st) (snd st) u = Inr tg"
    using choose_target_ok[OF assms(1) tu, of "fst st" "snd st"] by blast
  obtain st1 where st1: "apply_target em u tg st = Inr st1"
    using apply_target_ok[OF ty, of em tg st] by blast
  obtain st' where "overlay_all em us st1 = Inr st'"
    using Cons.IH[OF r, of st1] by blast
  then show ?case
    using tg st1 by (simp add: overlay_step_def)
qed

lemma byWantedType_type:
  "u \<in> set (byWantedType w raw) \<Longrightarrow> m_type (media_of u) = Str w"
  by (auto simp: byWantedType_def media_of_def split: option.splits)

lemma tracked_only_item_fields:
  assumes "tracked_only_item u k = Inr it"
  shows "i_title it = (if nullish (m_title (media_of u)) then Str [] else m_title (media_of u))"
    and "i_rating it = u_rating u" and "i_status it = u_status u"
    and "i_year it = toYear (releaseDate (media_of u))"
  using assms by (auto simp: tracked_only_item_def js_coalesce_def split: sum.splits)

lemma same_core_refl [simp]: "same_core a a"
  by (simp add: same_core_def)

lemma same_core_trans: "same_core a b \<Longrightarrow> same_core b c \<Longrightarrow> same_core a c"
  by (simp add: same_core_def)

lemma tracked_only_fresh:
  assumes inv: "overlay_inv em (im, am)"
    and c: "choose_target em im am u = Inr (TrackedOnly k)"
    and id: "identified u"
  shows "k \<notin> set (keys im)"
proof -
  have "truthy_id (resolve_canonical im am u) = None"
    using c unfolding choose_target_def by (auto split: option.splits sum.splits)
  then have "resolve_canonical im am u = None"
    using resolve_truthy[OF inv, of u] by simp
  then have n: "in_items im (umsInternal u) = None" "in_items im (umsExternal u) = None"
    unfolding resolve_canonical_first_some first_some4 by (auto split: if_splits)
  have k: "k = spec_new_key u"
    using choose_target_TrackedOnly[OF c] new_key_spec by simp
  show ?thesis
  proof (cases "umsInternal u")
    case (Some i)
    then have "k = i" unfolding k spec_new_key_def by simp
    then show ?thesis using n(1) Some by (auto simp: in_items_def split: if_splits)
  next
    case None
    then obtain x where x: "umsExternal u = Some x" using id unfolding identified_def by auto
    then have "k = x" unfolding k spec_new_key_def using None by simp
    then show ?thesis using n(2) x by (auto simp: in_items_def split: if_splits)
  qed
qed

lemma apply_target_core:
  assumes inv: "overlay_inv em (im, am)"
    and c: "choose_target em im am u = Inr tg"
    and fr: "\<And>k'. tg = TrackedOnly k' \<Longrightarrow> k' \<notin> set (keys im)"
    and ap: "apply_target em u tg (im, am) = Inr st'"
    and g: "map_get im k = Some v"
  shows "\<exists>v'. map_get (fst st') k = Some v' \<and> same_core v' v"
proof -
  have sub: "set (keys em) \<subseteq> set (keys im)"
    using inv unfolding overlay_inv_def by simp
  have merge: "c' \<in> set (keys im) \<Longrightarrow> merge_onto em u c' (im, am) = Inr st' \<Longrightarrow> ?thesis" for c'
  proof -
    assume ck: "c' \<in> set (keys im)" and m: "merge_onto em u c' (im, am) = Inr st'"
    obtain im' am' where st': "st' = (im', am')" by (cases st') auto
    obtain b x where b: "map_get im c' = Some b"
      and g': "map_get im' c' = Some (b\<lparr>i_status := u_status u, i_rating := x,
                  i_href := i_href (the (map_get im' c'))\<rparr>)"
      and o: "\<forall>k. k \<noteq> c' \<longrightarrow> map_get im' k = map_get im k"
      using merge_onto_result[OF inv ck m[unfolded st']] by force
    show ?thesis
    proof (cases "k = c'")
      case True
      then show ?thesis using g b g' unfolding st' by (auto simp: same_core_def)
    next
      case False
      then show ?thesis using g o unfolding st' by simp
    qed
  qed
  show ?thesis
  proof (cases tg)
    case (ById c')
    then show ?thesis
      using merge[of c'] choose_target_ById[OF inv, of u c'] c ap by simp
  next
    case (ByFallback c')
    then show ?thesis
      using merge[of c'] choose_target_ByFallback[of em im am u c'] c ap sub by auto
  next
    case (TrackedOnly k')
    have "k' \<notin> set (keys im)"
      by (rule fr[OF TrackedOnly])
    then have ne: "k \<noteq> k'"
      using g map_get_None_iff[of im k] by auto
    obtain it where "st' = (map_set k' it im, register_aliases u k' am)"
      using ap unfolding TrackedOnly by (auto simp: add_tracked_only_def split: sum.splits)
    then show ?thesis using g ne by (simp add: map_get_map_set)
  qed
qed

lemma tracked_only_written:
  assumes "apply_target em u (TrackedOnly k) st = Inr st'"
  shows "\<exists>it. tracked_only_item u k = Inr it \<and> map_get (fst st') k = Some it"
  using assms by (auto simp: add_tracked_only_def map_get_map_set split: sum.splits)

lemma recorded_step:
  assumes inv: "overlay_inv em st"
    and c: "choose_target em (fst st) (snd st) u = Inr tg"
    and ap: "apply_target em u tg st = Inr st1"
  shows "recorded (fst st1) (u, tg)"
proof -
  have k: "keys (fst st1) = keys (fst st) @ first_seen (keys (fst st)) (created_keys [tg])"
    using apply_target_inv[OF inv c ap] by simp
  show ?thesis
  proof (cases tg)
    case (ById c')
    then show ?thesis
      using choose_target_ById[of em "fst st" "snd st" u c'] inv c k by (simp add: recorded_def)
  next
    case (ByFallback c')
    have "set (keys em) \<subseteq> set (keys (fst st))" using inv unfolding overlay_inv_def by simp
    then show ?thesis
      using choose_target_ByFallback[of em "fst st" "snd st" u c'] c k ByFallback
      by (auto simp: recorded_def)
  next
    case (TrackedOnly k')
    obtain it where it: "tracked_only_item u k' = Inr it" "map_get (fst st1) k' = Some it"
      using tracked_only_written[OF ap[unfolded TrackedOnly]] by blast
    have "k' \<in> set (keys (fst st1))"
      using it(2) map_get_None_iff[of "fst st1" k'] by auto
    then show ?thesis
      using it TrackedOnly by (simp add: recorded_def)
  qed
qed

lemma recorded_mono:
  assumes r: "recorded im p"
    and core: "\<And>k v. map_get im k = Some v \<Longrightarrow> \<exists>v'. map_get im' k = Some v' \<and> same_core v' v"
  shows "recorded im' p"
proof -
  have keys: "k \<in> set (keys im) \<Longrightarrow> k \<in> set (keys im')" for k
  proof -
    assume "k \<in> set (keys im)"
    then obtain v where "map_get im k = Some v"
      using map_get_None_iff[of im k] by (cases "map_get im k") auto
    from core[OF this] show ?thesis using map_get_None_iff[of im' k] by auto
  qed
  show ?thesis
  proof (cases "snd p")
    case (TrackedOnly k)
    obtain it v where it: "tracked_only_item (fst p) k = Inr it" "map_get im k = Some v" "same_core v it"
      using r TrackedOnly unfolding recorded_def by (auto split: sum.splits option.splits)
    obtain v' where "map_get im' k = Some v'" "same_core v' v"
      using core[OF it(2)] by blast
    then show ?thesis
      using it(1,3) keys[of k] r TrackedOnly same_core_trans[of v' v it]
      by (simp add: recorded_def)
  next
    case (ById c)
    then show ?thesis using r keys[of c] by (simp add: recorded_def)
  next
    case (ByFallback c)
    then show ?thesis using r keys[of c] by (simp add: recorded_def)
  qed
qed

lemma overlay_all_fresh:
  assumes "overlay_inv em st" and "set (keys (fst st)) \<subseteq> set seen"
    and "rows_fresh seen us"
    and "overlay_all em us st = Inr st'"
  shows "\<exists>tgs. overlay_targets em us st = Inr tgs \<and> length tgs = length us \<and>
           keys (fst st') = keys (fst st) @ created_keys tgs \<and>
           (\<forall>k v. map_get (fst st) k = Some v \<longrightarrow>
                  (\<exists>v'. map_get (fst st') k = Some v' \<and> same_core v' v)) \<and>
           (\<forall>p \<in> set (zip us tgs). recorded (fst st') p)"
  using assms
proof (induction us arbitrary: st seen)
  case Nil
  then show ?case by simp
next
  case (Cons u us)
  obtain tg st1 where ch: "choose_target em (fst st) (snd st) u = Inr tg"
    and ap: "apply_target em u tg st = Inr st1" and rest: "overlay_all em us st1 = Inr st'"
    using Cons.prems(4) by (auto simp: overlay_step_def split: sum.splits)
  have fu: "identified u \<or> new_key u \<notin> set seen" and frs: "rows_fresh (new_key u # seen) us"
    using Cons.prems(3) by simp_all
  have s1: "overlay_inv em st1"
    and k1: "keys (fst st1) = keys (fst st) @ first_seen (keys (fst st)) (created_keys [tg])"
    using apply_target_inv[OF Cons.prems(1) ch ap] by blast+
  have inv': "overlay_inv em (fst st, snd st)" using Cons.prems(1) by simp
  have ap': "apply_target em u tg (fst st, snd st) = Inr st1" using ap by simp
  have fr: "tg = TrackedOnly k \<Longrightarrow> k \<notin> set (keys (fst st))" for k
  proof -
    assume tk: "tg = TrackedOnly k"
    show ?thesis
    proof (cases "identified u")
      case True
      then show ?thesis
        using tracked_only_fresh[OF inv' _ True, of k] ch tk by simp
    next
      case False
      then have "new_key u \<notin> set seen" using fu by blast
      moreover have "k = new_key u"
        using choose_target_TrackedOnly[of em "fst st" "snd st" u k] ch tk by simp
      ultimately show ?thesis using Cons.prems(2) by blast
    qed
  qed
  have fresh: "first_seen (keys (fst st)) (created_keys [tg]) = created_keys [tg]"
  proof (cases tg)
    case (TrackedOnly k)
    then show ?thesis using fr[OF TrackedOnly] by simp
  qed simp_all
  have ck: "set (created_keys [tg]) \<subseteq> {new_key u}"
  proof (cases tg)
    case (TrackedOnly k)
    then show ?thesis
      using choose_target_TrackedOnly[of em "fst st" "snd st" u k] ch by simp
  qed simp_all
  have sub1: "set (keys (fst st1)) \<subseteq> set (new_key u # seen)"
    unfolding k1 fresh using Cons.prems(2) ck by auto
  have core1: "map_get (fst st) k = Some v \<Longrightarrow> \<exists>v'. map_get (fst st1) k = Some v' \<and> same_core v' v" for k v
    using apply_target_core[OF inv' ch fr ap'] by blast
  have rec1: "recorded (fst st1) (u, tg)"
    by (rule recorded_step[OF Cons.prems(1) ch ap])
  obtain tgs where tgs: "overlay_targets em us st1 = Inr tgs" "length tgs = length us"
    "keys (fst st') = keys (fst st1) @ created_keys tgs"
    and core2: "\<forall>k v. map_get (fst st1) k = Some v \<longrightarrow>
                  (\<exists>v'. map_get (fst st') k = Some v' \<and> same_core v' v)"
    and rec2: "\<forall>p \<in> set (zip us tgs). recorded (fst st') p"
    using Cons.IH[OF s1 sub1 frs rest] by blast
  have t: "overlay_targets em (u # us) st = Inr (tg # tgs)"
    using ch ap tgs(1) by simp
  have k: "keys (fst st') = keys (fst st) @ created_keys (tg # tgs)"
    using tgs(3) k1 fresh created_keys_Cons[of tg tgs] by simp
  have core: "\<forall>k v. map_get (fst st) k = Some v \<longrightarrow>
                  (\<exists>v'. map_get (fst st') k = Some v' \<and> same_core v' v)"
  proof (intro allI impI)
    fix k v assume "map_get (fst st) k = Some v"
    then obtain v1 where v1: "map_get (fst st1) k = Some v1" "same_core v1 v"
      using core1 by blast
    then obtain v' where "map_get (fst st') k = Some v'" "same_core v' v1"
      using core2 by blast
    then show "\<exists>v'. map_get (fst st') k = Some v' \<and> same_core v' v"
      using v1(2) same_core_trans by blast
  qed
  have "recorded (fst st') (u, tg)"
    using recorded_mono[OF rec1] core2 by blast
  then have rec: "\<forall>p \<in> set (zip (u # us) (tg # tgs)). recorded (fst st') p"
    using rec2 by simp
  show ?case
    using t tgs(2) k core rec by (intro exI[of _ "tg # tgs"]) simp
qed

lemma initial_items_fresh_acc:
  assumes "distinct (keys im0 @ map (\<lambda>it. js_String (i_id it)) its)"
  shows "foldl (\<lambda>im it. map_set (js_String (i_id it)) it im) im0 its
           = im0 @ map (\<lambda>it. (js_String (i_id it), it)) its"
  using assms
proof (induction its arbitrary: im0)
  case Nil
  then show ?case by simp
next
  case (Cons it its)
  have f: "js_String (i_id it) \<notin> set (keys im0)" using Cons.prems by auto
  have s: "map_set (js_String (i_id it)) it im0 = im0 @ [(js_String (i_id it), it)]"
    by (rule map_set_fresh[OF f])
  have d: "distinct (keys (im0 @ [(js_String (i_id it), it)]) @ map (\<lambda>it. js_String (i_id it)) its)"
    using Cons.prems by auto
  have "foldl (\<lambda>im it. map_set (js_String (i_id it)) it im) im0 (it # its)
          = foldl (\<lambda>im it. map_set (js_String (i_id it)) it im)
              (im0 @ [(js_String (i_id it), it)]) its"
    by (simp add: s)
  also have "\<dots> = (im0 @ [(js_String (i_id it), it)]) @ map (\<lambda>it. (js_String (i_id it), it)) its"
    by (rule Cons.IH[OF d])
  finally show ?case by simp
qed

lemma initial_items_distinct:
  assumes "distinct (map (\<lambda>it. js_String (i_id it)) its)"
  shows "initial_items its = map (\<lambda>it. (js_String (i_id it), it)) its"
  unfolding initial_items_def using initial_items_fresh_acc[of "[]" its] assms by simp

lemma initial_items_get:
  assumes d: "distinct (map (\<lambda>it. js_String (i_id it)) its)" and i: "it \<in> set its"
  shows "map_get (initial_items its) (js_String (i_id it)) = Some it"
proof -
  have k: "keys (initial_items its) = map (\<lambda>it. js_String (i_id it)) its"
    unfolding initial_items_distinct[OF d] by (simp add: comp_def)
  have "(js_String (i_id it), it) \<in> set (initial_items its)"
    unfolding initial_items_distinct[OF d] using i by auto
  then show ?thesis
    using map_get_distinct[of "initial_items its"] d unfolding k by blast
qed

lemma external_part_core:
  assumes "\<forall>it \<in> set its. \<exists>v'. map_get im (js_String (i_id it)) = Some v' \<and> same_core v' it"
  shows "list_all2 (\<lambda>it e. same_core e it) its (external_part its im)"
  using assms unfolding external_part_def
  by (induction its) auto

lemma external_part_member:
  assumes "it \<in> set its" and "map_get im (js_String (i_id it)) = Some v"
  shows "v \<in> set (external_part its im)"
  using assms unfolding external_part_def
  by (induction its) (auto split: option.splits)

lemma tracked_only_part_member:
  assumes "(k, v) \<in> set im" and "k \<notin> set (keys em)"
  shows "v \<in> set (tracked_only_part em im)"
  using assms unfolding tracked_only_part_def by (force simp: map_has_iff)

lemma count_one:
  assumes "distinct (map f xs)" and "y \<in> f ` set xs"
  shows "length (filter (\<lambda>x. f x = y) xs) = 1"
  using assms
proof (induction xs)
  case Nil
  then show ?case by simp
next
  case (Cons x xs)
  show ?case
  proof (cases "f x = y")
    case True
    then have "y \<notin> f ` set xs" using Cons.prems(1) by auto
    then have "filter (\<lambda>x. f x = y) xs = []" by (auto simp: filter_empty_conv)
    then show ?thesis using True by simp
  next
    case False
    then have "y \<in> f ` set xs" using Cons.prems(2) by auto
    then show ?thesis using Cons.IH Cons.prems(1) False by simp
  qed
qed

lemma list_all2_compose:
  assumes "list_all2 P xs ys" and "list_all2 Q ys zs"
  shows "list_all2 (\<lambda>x z. \<exists>y. P x y \<and> Q y z) xs zs"
proof -
  have "(list_all2 P OO list_all2 Q) xs zs" using assms by blast
  then have "list_all2 (P OO Q) xs zs" by (simp add: list.rel_compp)
  then show ?thesis by (simp add: OO_def)
qed

text \<open>
  When the canonical ids of the external list are distinct and the row id of every record
  without identifiers is fresh, no key is written twice: the final list is made of one
  entry per external item, in the order of the external list, and then of one entry per
  tracked-only record, in the order of the loop.
\<close>

lemma tracked_only_rows_keys:
  "length us = length tgs \<Longrightarrow> map snd (tracked_only_rows (zip us tgs)) = created_keys tgs"
proof (induction us tgs rule: list_induct2)
  case Nil
  then show ?case by simp
next
  case (Cons u us tg tgs)
  then show ?case by (cases tg) simp_all
qed

lemma tracked_only_rows_set:
  "p \<in> set (tracked_only_rows ps) \<Longrightarrow> (fst p, TrackedOnly (snd p)) \<in> set ps"
  by (induction ps rule: tracked_only_rows.induct) auto

lemma tracked_only_part_suffix:
  assumes k: "keys im = ks0 @ ks1" and s0: "set ks0 \<subseteq> set (keys em)"
    and s1: "set ks1 \<inter> set (keys em) = {}"
  shows "tracked_only_part em im = map snd (drop (length ks0) im)"
proof -
  let ?n = "length ks0"
  have kt: "keys (take ?n im) = ks0" and kd: "keys (drop ?n im) = ks1"
    using k by (simp_all add: take_map[symmetric] drop_map[symmetric])
  have a: "filter (\<lambda>e. \<not> map_has em (fst e)) (take ?n im) = []"
  proof -
    have "\<forall>e \<in> set (take ?n im). fst e \<in> set (keys em)"
      using s0 kt by (metis (no_types, lifting) image_eqI list.set_map subsetD)
    then show ?thesis by (simp add: filter_empty_conv map_has_iff)
  qed
  have b: "filter (\<lambda>e. \<not> map_has em (fst e)) (drop ?n im) = drop ?n im"
  proof -
    have "\<forall>e \<in> set (drop ?n im). fst e \<notin> set (keys em)"
    proof
      fix e assume "e \<in> set (drop ?n im)"
      then have "fst e \<in> set ks1" unfolding kd[symmetric] by simp
      then show "fst e \<notin> set (keys em)" using s1 by blast
    qed
    then show ?thesis by (simp add: map_has_iff)
  qed
  have "filter (\<lambda>e. \<not> map_has em (fst e)) im
          = filter (\<lambda>e. \<not> map_has em (fst e)) (take ?n im @ drop ?n im)"
    by simp
  also have "\<dots> = drop ?n im"
    unfolding filter_append a b by simp
  finally show ?thesis unfolding tracked_only_part_def by simp
qed

lemma suffix_entries:
  assumes d: "distinct (keys im)" and k: "keys im = ks0 @ ks1"
  shows "list_all2 (\<lambda>k e. map_get im k = Some e) ks1 (map snd (drop (length ks0) im))"
proof -
  let ?t = "drop (length ks0) im"
  have kd: "keys ?t = ks1" using k by (simp add: drop_map[symmetric])
  have "list_all2 (\<lambda>k e. map_get im k = Some e) (keys ?t) (map snd ?t)"
  proof (rule list_all2_all_nthI)
    show "length (keys ?t) = length (map snd ?t)" by simp
  next
    fix n assume n: "n < length (keys ?t)"
    then have "?t ! n \<in> set im"
      by (metis in_set_dropD length_map nth_mem)
    then have "(fst (?t ! n), snd (?t ! n)) \<in> set im" by simp
    from map_get_distinct[OF d this]
    show "map_get im (keys ?t ! n) = Some (map snd ?t ! n)" using n by simp
  qed
  then show ?thesis unfolding kd .
qed

lemma fresh_run_order:
  assumes b: "build_external external ([], [], []) = Inr (its, em, am)"
    and d: "distinct (map canonical_id external)"
    and fresh: "rows_fresh (map canonical_id external) us"
    and o: "overlay_all em us (initial_items its, am) = Inr st"
  shows "\<exists>tgs. overlay_targets em us (initial_items its, am) = Inr tgs \<and>
           length tgs = length us \<and>
           list_all2 (\<lambda>m e. \<exists>it. external_item m = Inr it \<and> same_core e it)
             external (take (length external) (final_items its em (fst st))) \<and>
           list_all2 (\<lambda>p e. \<exists>it. tracked_only_item (fst p) (snd p) = Inr it \<and> same_core e it)
             (tracked_only_rows (zip us tgs)) (drop (length external) (final_items its em (fst st)))"
proof -
  let ?cids = "map canonical_id external"
  let ?out = "final_items its em (fst st)"
  have inv0: "overlay_inv em (initial_items its, am)"
    and k0: "set (keys (initial_items its)) = set ?cids"
    and ke: "set (keys em) = set ?cids"
    using initial_inv[OF b] by blast+
  have i: "map i_id its = map (\<lambda>m. Str (canonical_id m)) external"
    by (rule build_external_facts(2)[OF b])
  have l: "list_all2 (\<lambda>m it. external_item m = Inr it) external its"
    by (rule external_map_distinct(2)[OF b d])
  have js: "map (\<lambda>it. js_String (i_id it)) its = ?cids"
  proof -
    have "map (\<lambda>it. js_String (i_id it)) its = map js_String (map i_id its)" by simp
    also have "\<dots> = ?cids" unfolding i by simp
    finally show ?thesis .
  qed
  have dk: "distinct (map (\<lambda>it. js_String (i_id it)) its)" unfolding js by (rule d)
  have sub: "set (keys (fst (initial_items its, am))) \<subseteq> set ?cids"
    using k0 by simp
  obtain tgs where tgs: "overlay_targets em us (initial_items its, am) = Inr tgs"
    "length tgs = length us"
    and kf: "keys (fst st) = keys (initial_items its) @ created_keys tgs"
    and core: "\<forall>k v. map_get (initial_items its) k = Some v \<longrightarrow>
                  (\<exists>v'. map_get (fst st) k = Some v' \<and> same_core v' v)"
    and rec: "\<forall>p \<in> set (zip us tgs). recorded (fst st) p"
    using overlay_all_fresh[OF inv0 sub fresh o] by auto
  have inv: "overlay_inv em st"
    using overlay_targets_inv[OF inv0 o] by blast
  have dst: "distinct (keys (fst st))" using inv unfolding overlay_inv_def by simp
  have dis: "set (created_keys tgs) \<inter> set (keys em) = {}"
  proof -
    have "distinct (keys (initial_items its) @ created_keys tgs)" using dst unfolding kf .
    then have "set (keys (initial_items its)) \<inter> set (created_keys tgs) = {}" by simp
    then show ?thesis unfolding k0 ke by blast
  qed
  have final_core: "\<forall>it \<in> set its. \<exists>v'. map_get (fst st) (js_String (i_id it)) = Some v' \<and> same_core v' it"
    using core initial_items_get[OF dk] by blast
  have ep: "list_all2 (\<lambda>it e. same_core e it) its (external_part its (fst st))"
    by (rule external_part_core[OF final_core])
  have len: "length (external_part its (fst st)) = length external"
    using list_all2_lengthD[OF ep] list_all2_lengthD[OF l] by simp
  have tk: "take (length external) ?out = external_part its (fst st)"
    and dr: "drop (length external) ?out = tracked_only_part em (fst st)"
    unfolding final_items_def using len by simp_all
  have E: "list_all2 (\<lambda>m e. \<exists>it. external_item m = Inr it \<and> same_core e it)
             external (take (length external) ?out)"
    unfolding tk by (rule list_all2_compose[OF l ep])
  have s0: "set (keys (initial_items its)) \<subseteq> set (keys em)" unfolding k0 ke by simp
  have tp: "tracked_only_part em (fst st)
              = map snd (drop (length (keys (initial_items its))) (fst st))"
    by (rule tracked_only_part_suffix[OF kf s0 dis])
  have se: "list_all2 (\<lambda>k e. map_get (fst st) k = Some e) (created_keys tgs)
              (tracked_only_part em (fst st))"
    unfolding tp by (rule suffix_entries[OF dst kf])
  have rk: "map snd (tracked_only_rows (zip us tgs)) = created_keys tgs"
    by (rule tracked_only_rows_keys[OF tgs(2)[symmetric]])
  have a: "list_all2 (\<lambda>p e. map_get (fst st) (snd p) = Some e)
             (tracked_only_rows (zip us tgs)) (tracked_only_part em (fst st))"
    using se unfolding rk[symmetric] by (simp add: list_all2_map1)
  have T: "list_all2 (\<lambda>p e. \<exists>it. tracked_only_item (fst p) (snd p) = Inr it \<and> same_core e it)
             (tracked_only_rows (zip us tgs)) (tracked_only_part em (fst st))"
  proof (rule list.rel_mono_strong[OF a])
    fix p e
    assume p: "p \<in> set (tracked_only_rows (zip us tgs))"
      and g: "map_get (fst st) (snd p) = Some e"
    have "recorded (fst st) (fst p, TrackedOnly (snd p))"
      using rec tracked_only_rows_set[OF p] by blast
    then show "\<exists>it. tracked_only_item (fst p) (snd p) = Inr it \<and> same_core e it"
      using g unfolding recorded_def by (auto split: sum.splits option.splits)
  qed
  show ?thesis
    using tgs E T unfolding dr by blast
qed

lemma lower_type_text:
  "lower_type m = Inr ty \<Longrightarrow> ty = (case m_type m of Str s \<Rightarrow> toLowerCase s | _ \<Rightarrow> [])"
  by (cases "m_type m")
     (auto simp: lower_type_def or_empty_def js_or_def toLowerCase_def split: if_splits)

lemma tracked_only_item_typed:
  assumes "m_type (media_of u) = Str ty"
  shows "tracked_only_item u k =
           Inr \<lparr>i_id = Str k,
                i_title = (if nullish (m_title (media_of u)) then Str [] else m_title (media_of u)),
                i_type = Str (toLowerCase ty),
                i_year = toYear (releaseDate (media_of u)),
                i_rating = u_rating u,
                i_coverUrl = pickCover (posterUrl (media_of u)) (backdropUrl (media_of u)),
                i_href = Str (''/collection/'' @ toLowerCase ty @ ''/''
                              @ js_String (if nullish (mediaId (media_of u)) then u_id u
                                           else mediaId (media_of u))),
                i_status = u_status u,
                i_raw = None\<rparr>"
proof -
  have "lower_type (media_of u) = Inr (toLowerCase ty)"
    using assms by (cases "ty = []") (simp_all add: lower_type_def or_empty_def js_or_def toLowerCase_def)
  then show ?thesis
    by (simp add: tracked_only_item_def js_coalesce_def)
qed

text \<open>A year of one to four digits that does not begin with a zero is read back as written.\<close>

lemma digit_not_space: "is_digit c \<Longrightarrow> \<not> is_space c"
  by (auto simp: is_digit_def is_space_def)

lemma strip_zeros_back:
  "rev (dropWhile (\<lambda>c. c = z) (rev s))
     @ replicate (length s - length (dropWhile (\<lambda>c. c = z) (rev s))) z = s"
proof -
  let ?t = "takeWhile (\<lambda>c. c = z) (rev s)" and ?d = "dropWhile (\<lambda>c. c = z) (rev s)"
  have t: "replicate (length ?t) z = ?t"
    by (rule replicate_length_same) (auto dest: set_takeWhileD)
  have "length ?t + length ?d = length (rev s)"
    by (metis length_append takeWhile_dropWhile_id)
  then have l: "length s - length ?d = length ?t"
    unfolding length_rev by linarith
  have "rev (?t @ ?d) = s" by (simp only: takeWhile_dropWhile_id rev_rev_ident)
  then have "rev ?d @ rev ?t = s" by (simp only: rev_append)
  moreover have "rev ?t = replicate (length s - length ?d) z"
    unfolding l by (metis t rev_replicate)
  ultimately show ?thesis by simp
qed

lemma plain_year_Number4:
  assumes n: "s \<noteq> []" and len: "length s \<le> 21" and dg: "list_all is_digit s" and z: "hd s \<noteq> CHR ''0''"
  shows "Number4 s = s"
proof -
  obtain c r where s: "s = c # r" using n by (cases s) auto
  have dc: "is_digit c" and c0: "c \<noteq> CHR ''0''" using dg z s by auto
  have dl: "is_digit (last s)" using dg n by (simp add: list_all_iff)
  have tr: "trim s = s"
  proof -
    have "dropWhile is_space s = s" using dc digit_not_space s by simp
    moreover have "dropWhile is_space (rev s) = rev s"
      using dl digit_not_space n by (cases "rev s") (auto simp: last_rev hd_rev)
    ultimately show ?thesis by (simp add: trim_def)
  qed
  have cs: "c \<noteq> CHR ''+''" "c \<noteq> CHR ''-''" using dc by (auto simp: is_digit_def)
  have tw: "takeWhile is_digit s = s" "dropWhile is_digit s = []"
    using dg by (simp_all add: list_all_iff)
  have pu: "parse_unsigned False s = Dec False s 0"
    unfolding parse_unsigned_def Let_def tw using n by simp
  have "parse_number (c # r) = parse_unsigned False (c # r)"
    unfolding parse_number_def Let_def tr[unfolded s] using c0 cs by simp
  then have p: "parse_number s = Dec False s 0"
    using pu unfolding s by simp
  have dz: "dropWhile (\<lambda>c. c = CHR ''0'') s = s" using c0 s by simp
  have le: "length (dropWhile (\<lambda>c. c = CHR ''0'') (rev s)) \<le> length s"
    by (metis length_dropWhile_le length_rev)
  have "number_to_string (Dec False s 0)
          = rev (dropWhile (\<lambda>c. c = CHR ''0'') (rev s))
            @ replicate (length s - length (dropWhile (\<lambda>c. c = CHR ''0'') (rev s))) (CHR ''0'')"
    unfolding number_to_string_def parsed.case Let_def dz
    using n len le by (simp add: nat_diff_distrib' of_nat_diff)
  then show ?thesis
    unfolding Number4_def p strip_zeros_back .
qed

lemma plain_year_reads_back:
  assumes "take 4 (js_String d) \<noteq> []" and "list_all is_digit (take 4 (js_String d))"
    and "hd (take 4 (js_String d)) \<noteq> CHR ''0''"
  shows "year_reads_back d"
  unfolding year_reads_back_def
  using plain_year_Number4[OF assms(1) _ assms(2,3)] by simp

lemma map_sum_InrD: "map_sum f g x = Inr y \<Longrightarrow> x = Inr (projr x) \<and> g (projr x) = y"
  by (cases x) auto

lemma not_isl_pairD: "\<not> isl x \<Longrightarrow> x = Inr (fst (projr x), snd (projr x))"
  by (cases x) auto

lemma sample_distinct: "distinct (map canonical_id sample_external)"
  by code_simp

lemma sample_state: "state_after sample_external [] = Inr (fst sample_state, snd sample_state)"
  by code_simp

lemma sample_run_ids:
  "map_sum id (map i_id) (reconcile ''TV'' sample_external sample_tracked)
     = Inr [Str ''7'', Str ''x8'', Str ''9'']"
  by code_simp

section \<open>The claims\<close>

subsection \<open>C1: no two entries share an id\<close>

text \<open>
  C1, as amended. When the canonical ids of the external list are pairwise distinct,
  the ids of the entries that \<open>reconcile\<close> returns are pairwise distinct.
\<close>

theorem reconcile_ids_distinct:
  assumes "distinct (map canonical_id external)"
    and "reconcile wantedType external raw = Inr out"
  shows "distinct (map i_id out)"
proof -
  obtain its em am st where r:
    "build_external external ([], [], []) = Inr (its, em, am)"
    "overlay_all em (byWantedType wantedType raw) (initial_items its, am) = Inr st"
    "out = final_items its em (fst st)"
    using reconcile_run[OF assms(2)] by blast
  obtain tgs where tgs:
    "map i_id (final_items its em (fst st))
       = map Str (map canonical_id external
                  @ first_seen (map canonical_id external) (created_keys tgs))"
    using final_ids[OF r(1,2)] by blast
  have "distinct (map canonical_id external
                  @ first_seen (map canonical_id external) (created_keys tgs))"
  proof -
    have "set (map canonical_id external)
            \<inter> set (first_seen (map canonical_id external) (created_keys tgs)) = {}"
      using first_seen_fresh[of _ "map canonical_id external" "created_keys tgs"] by blast
    then show ?thesis
      using assms(1) distinct_first_seen[of "map canonical_id external" "created_keys tgs"]
      by (simp only: distinct_append)
  qed
  then have "distinct (map Str (map canonical_id external
                  @ first_seen (map canonical_id external) (created_keys tgs)))"
    by (simp only: distinct_map) (simp add: inj_on_def)
  then show ?thesis unfolding r(3) tgs .
qed

text \<open>
  C1, witness: the two external ids of the sample feed are distinct, the routine
  returns, and the ids of its result are distinct.
\<close>

theorem reconcile_ids_distinct_witness:
  "distinct (map canonical_id sample_external) \<and>
   reconcile ''TV'' sample_external sample_tracked
     = Inr (projr (reconcile ''TV'' sample_external sample_tracked)) \<and>
   distinct (map i_id (projr (reconcile ''TV'' sample_external sample_tracked)))"
proof -
  have h: "reconcile ''TV'' sample_external sample_tracked
             = Inr (projr (reconcile ''TV'' sample_external sample_tracked))"
    using map_sum_InrD[OF sample_run_ids] by blast
  show ?thesis
    using sample_distinct h reconcile_ids_distinct[OF sample_distinct h] by blast
qed

text \<open>
  C1, counterexample to the claim as stated: an external list that holds the same
  canonical id twice, and no tracked record. The first loop of the final pass pushes the
  entry of that id once per external item, so the result holds the id twice.
\<close>

theorem duplicate_external_ids_counterexample:
  "map_sum id (map i_id)
     (reconcile ''TV''
        [sample_media (Str ''7'') Undefined (Str ''Lost'') Undefined,
         sample_media (Str ''7'') Undefined (Str ''Lost'') Undefined] [])
     = Inr [Str ''7'', Str ''7'']"
  by code_simp

subsection \<open>C2: the order of resolution\<close>

text \<open>
  C2. In every state the loop can reach, the branch taken for a record is decided by the
  four identifier cases in the order of the specification; only when none of them gives
  an id is the fallback consulted, and only when the fallback gives no usable id is the
  record written under a new key, taken from its internal id if present, else its
  external id, else its row id; the entry written there is built from the record alone.
\<close>

theorem resolution_order:
  assumes "state_after external pre = Inr (im, am)"
  shows "choose_target (external_map external) im am u =
           (case first_some [in_items im (umsInternal u), via_alias am (umsExternal u),
                             in_items im (umsExternal u), via_alias am (umsInternal u)] of
              Some c \<Rightarrow> Inr (ById c)
            | None \<Rightarrow>
                (case fallback_canonical (external_map external) u of
                   Inl e \<Rightarrow> Inl e
                 | Inr fb \<Rightarrow>
                     (case truthy_id fb of
                        Some c \<Rightarrow> Inr (ByFallback c)
                      | None \<Rightarrow> Inr (TrackedOnly (spec_new_key u))))) \<and>
         (choose_target (external_map external) im am u = Inr (TrackedOnly k) \<longrightarrow>
            overlay_step (external_map external) u (im, am) =
              map_sum id (\<lambda>it. (map_set k it im, register_aliases u k am))
                (tracked_only_item u k))"
proof -
  have t: "truthy_id (resolve_canonical im am u) = resolve_canonical im am u"
    by (rule resolve_truthy[OF state_after_inv[OF assms]])
  have a: "choose_target (external_map external) im am u =
           (case first_some [in_items im (umsInternal u), via_alias am (umsExternal u),
                             in_items im (umsExternal u), via_alias am (umsInternal u)] of
              Some c \<Rightarrow> Inr (ById c)
            | None \<Rightarrow>
                (case fallback_canonical (external_map external) u of
                   Inl e \<Rightarrow> Inl e
                 | Inr fb \<Rightarrow>
                     (case truthy_id fb of
                        Some c \<Rightarrow> Inr (ByFallback c)
                      | None \<Rightarrow> Inr (TrackedOnly (spec_new_key u)))))"
    unfolding choose_target_def t
    unfolding resolve_canonical_first_some new_key_spec ..
  have b: "choose_target (external_map external) im am u = Inr (TrackedOnly k) \<Longrightarrow>
            overlay_step (external_map external) u (im, am) =
              map_sum id (\<lambda>it. (map_set k it im, register_aliases u k am))
                (tracked_only_item u k)"
    by (cases "tracked_only_item u k") (simp_all add: overlay_step_def add_tracked_only_def)
  show ?thesis using a b by blast
qed

text \<open>
  C2, witness: before any tracked record, the row that carries the internal id \<open>7\<close>
  of the first sample item resolves by case 1; the row that has only a title falls
  through to the fallback; the row with the unknown ids \<open>9\<close> and \<open>x9\<close> is written
  under \<open>9\<close>.
\<close>

theorem resolution_order_witness:
  "state_after sample_external [] = Inr (fst sample_state, snd sample_state) \<and>
   choose_target (external_map sample_external) (fst sample_state) (snd sample_state) row_lost
     = Inr (ById ''7'') \<and>
   choose_target (external_map sample_external) (fst sample_state) (snd sample_state) row_fargo
     = Inr (TrackedOnly ''9'') \<and>
   overlay_step (external_map sample_external) row_fargo (fst sample_state, snd sample_state)
     = map_sum id (\<lambda>it. (map_set ''9'' it (fst sample_state),
                          register_aliases row_fargo ''9'' (snd sample_state)))
         (tracked_only_item row_fargo ''9'')"
proof -
  have f1: "first_some [in_items (fst sample_state) (umsInternal row_lost),
                        via_alias (snd sample_state) (umsExternal row_lost),
                        in_items (fst sample_state) (umsExternal row_lost),
                        via_alias (snd sample_state) (umsInternal row_lost)] = Some ''7''"
    by code_simp
  have c: "choose_target (external_map sample_external) (fst sample_state) (snd sample_state)
             row_fargo = Inr (TrackedOnly ''9'')"
    by code_simp
  have a: "choose_target (external_map sample_external) (fst sample_state) (snd sample_state)
             row_lost = Inr (ById ''7'')"
    using resolution_order[OF sample_state, of row_lost] f1 by simp
  have b: "overlay_step (external_map sample_external) row_fargo (fst sample_state, snd sample_state)
             = map_sum id (\<lambda>it. (map_set ''9'' it (fst sample_state),
                                  register_aliases row_fargo ''9'' (snd sample_state)))
                 (tracked_only_item row_fargo ''9'')"
    using resolution_order[OF sample_state, of row_fargo "''9''"] c by blast
  show ?thesis
    using sample_state a c b by blast
qed

subsection \<open>C3: the fallback takes the first match\<close>

text \<open>
  C3, as amended. When the canonical ids of the external list are pairwise distinct and
  the year of the record's release date is read back as written, the external items stand
  in the order of the external list, one per element; a record that one of the four
  identifier cases resolves is merged by identifier, whatever the titles and years are;
  otherwise the first external item, in the order of the list, whose title equals the
  record's, both trimmed and in lower case and not empty, and whose year equals the
  record's release year unless one of the two is missing, is the one the record is merged
  onto, unless the id of that item is the empty text; when no item is accepted, or the
  accepted one has the empty id, the record becomes a tracked-only entry.
\<close>

theorem fallback_first_match:
  assumes d: "distinct (map canonical_id external)"
    and y: "year_reads_back (releaseDate (media_of u))"
    and s: "state_after external pre = Inr (im, am)"
    and c: "choose_target (external_map external) im am u = Inr tg"
  shows "list_all2 (\<lambda>m it. external_item m = Inr it) external (external_items external) \<and>
         (case first_some [in_items im (umsInternal u), via_alias am (umsExternal u),
                           in_items im (umsExternal u), via_alias am (umsInternal u)] of
            Some c \<Rightarrow> tg = ById c
          | None \<Rightarrow>
              (case find (spec_fallback_matches u) (external_items external) of
                 None \<Rightarrow> tg = TrackedOnly (new_key u)
               | Some it \<Rightarrow>
                   tg = (if js_String (i_id it) = [] then TrackedOnly (new_key u)
                         else ByFallback (js_String (i_id it)))))"
proof -
  obtain its em am0 where b: "build_external external ([], [], []) = Inr (its, em, am0)"
    and em: "external_map external = em" and its: "external_items external = its"
    using state_after_build[OF s] by blast
  have emap: "em = map (\<lambda>it. (js_String (i_id it), it)) its"
    and l: "list_all2 (\<lambda>m it. external_item m = Inr it) external its"
    using external_map_distinct[OF b d] by blast+
  have t: "truthy_id (resolve_canonical im am u) = resolve_canonical im am u"
    by (rule resolve_truthy[OF state_after_inv[OF s]])
  have "case resolve_canonical im am u of
            Some c \<Rightarrow> tg = ById c
          | None \<Rightarrow>
              (case find (spec_fallback_matches u) its of
                 None \<Rightarrow> tg = TrackedOnly (new_key u)
               | Some it \<Rightarrow>
                   tg = (if js_String (i_id it) = [] then TrackedOnly (new_key u)
                         else ByFallback (js_String (i_id it))))"
  proof (cases "resolve_canonical im am u")
    case (Some c')
    then show ?thesis
      using c unfolding choose_target_def t by simp
  next
    case None
    obtain fb where fb: "fallback_canonical em u = Inr fb"
      and tg: "tg = (case truthy_id fb of Some c \<Rightarrow> ByFallback c | None \<Rightarrow> TrackedOnly (new_key u))"
      using c None unfolding choose_target_def t em
      by (auto split: sum.splits option.splits)
    have "fb = map_option fst (find (\<lambda>e. spec_fallback_matches u (snd e)) em)"
      by (rule fallback_canonical_spec[OF fb y])
    also have "\<dots> = map_option (\<lambda>it. js_String (i_id it)) (find (spec_fallback_matches u) its)"
      unfolding emap by (rule find_mapped)
    finally have fbe: "fb = map_option (\<lambda>it. js_String (i_id it)) (find (spec_fallback_matches u) its)" .
    show ?thesis
      using None tg fbe
      by (cases "find (spec_fallback_matches u) its") (auto simp: truthy_id_def)
  qed
  then show ?thesis
    unfolding its resolve_canonical_first_some using l by blast
qed

text \<open>
  C3, witness: on the sample feed the row titled \<open>dark\<close> with surrounding blanks, year
  2017, has no identifier; the second external item is the first that the comparison of
  the specification accepts, and the row is merged onto its id \<open>x8\<close>.
\<close>

theorem fallback_first_match_witness:
  "distinct (map canonical_id sample_external) \<and>
   year_reads_back (releaseDate (media_of row_dark)) \<and>
   state_after sample_external [] = Inr (fst sample_state, snd sample_state) \<and>
   choose_target (external_map sample_external) (fst sample_state) (snd sample_state) row_dark
     = Inr (ByFallback ''x8'') \<and>
   map external_item sample_external = map Inr (external_items sample_external) \<and>
   map_option i_id (find (spec_fallback_matches row_dark) (external_items sample_external))
     = Some (Str ''x8'')"
proof -
  have y: "year_reads_back (releaseDate (media_of row_dark))"
    by code_simp
  have c: "choose_target (external_map sample_external) (fst sample_state) (snd sample_state)
             row_dark = Inr (ByFallback ''x8'')"
    by code_simp
  have f: "map_option i_id (find (spec_fallback_matches row_dark) (external_items sample_external))
             = Some (Str ''x8'')"
    by code_simp
  have "list_all2 (\<lambda>m it. external_item m = Inr it) sample_external (external_items sample_external)"
    using fallback_first_match[OF sample_distinct y sample_state c] by blast
  then have "map external_item sample_external = map Inr (external_items sample_external)"
    by (simp add: list_all2_conv_all_nth list_eq_iff_nth_eq)
  then show ?thesis
    using sample_distinct y sample_state c f by blast
qed

text \<open>
  C3, counterexample to the claim as stated, in four parts. The external list holds the
  id \<open>1\<close> twice, first under the title \<open>Lost\<close>, last under the title \<open>Dark\<close>, and
  the id \<open>2\<close> between them under the title \<open>Dark\<close>: the first item of the list with
  the title of the tracked row is the second one, but the loop goes through the map,
  whose first entry is the id \<open>1\<close> with the fields of the last item, and merges the row
  onto \<open>1\<close>. A row and an item with the same title and the same release date
  \<open>0999-01-01\<close> have the same year, but the row's year is read as the number 999 and
  compared as text with \<open>0999\<close>: the row is not merged. A row whose title is two blanks
  and an item whose title is empty have equal trimmed titles, and the row is not merged.
  An item whose only id is the empty text has the title of the row, and the row is not
  merged.
\<close>

theorem fallback_order_counterexample:
  "map_option i_id
     (find (spec_fallback_matches (sample_ums (Num ''100'')
              (sample_media Undefined Undefined (Str ''Dark'') Undefined) (Str ''COMPLETED'') Undefined))
        (external_items
           [sample_media (Str ''1'') Undefined (Str ''Lost'') Undefined,
            sample_media (Str ''2'') Undefined (Str ''Dark'') Undefined,
            sample_media (Str ''1'') Undefined (Str ''Dark'') Undefined]))
     = Some (Str ''2'') \<and>
   reconcile_targets ''TV''
     [sample_media (Str ''1'') Undefined (Str ''Lost'') Undefined,
      sample_media (Str ''2'') Undefined (Str ''Dark'') Undefined,
      sample_media (Str ''1'') Undefined (Str ''Dark'') Undefined]
     [sample_ums (Num ''100'')
        (sample_media Undefined Undefined (Str ''Dark'') Undefined) (Str ''COMPLETED'') Undefined]
     = Inr [ByFallback ''1''] \<and>
   spec_year (Str ''0999-01-01'') = Some ''0999'' \<and>
   map item_year (external_items [sample_media (Str ''7'') Undefined (Str ''Lost'') (Str ''0999-01-01'')])
     = [Some ''0999''] \<and>
   reconcile_targets ''TV''
     [sample_media (Str ''7'') Undefined (Str ''Lost'') (Str ''0999-01-01'')]
     [sample_ums (Num ''100'')
        (sample_media Undefined Undefined (Str ''Lost'') (Str ''0999-01-01'')) (Str ''COMPLETED'') Undefined]
     = Inr [TrackedOnly ''100''] \<and>
   spec_title (Str ''  '') = spec_title (Str []) \<and>
   reconcile_targets ''TV''
     [sample_media (Str ''7'') Undefined (Str []) Undefined]
     [sample_ums (Num ''100'')
        (sample_media Undefined Undefined (Str ''  '') Undefined) (Str ''COMPLETED'') Undefined]
     = Inr [TrackedOnly ''100''] \<and>
   map i_id (external_items [(sample_media Undefined Undefined (Str ''Lost'') Undefined)\<lparr>m_id := Str []\<rparr>])
     = [Str []] \<and>
   reconcile_targets ''TV''
     [(sample_media Undefined Undefined (Str ''Lost'') Undefined)\<lparr>m_id := Str []\<rparr>]
     [sample_ums (Num ''100'')
        (sample_media Undefined Undefined (Str ''Lost'') Undefined) (Str ''COMPLETED'') Undefined]
     = Inr [TrackedOnly ''100'']"
  by code_simp

subsection \<open>C4: the years compared by the fallback\<close>

text \<open>
  C4, as amended. The year key of a tracked record is undefined exactly when its release
  date is absent or empty, and then it agrees with every year; when the first four
  characters of the date are not a number other than zero, the key is those characters as
  they stand, and it agrees only with an absent year or with the same characters; else it
  is the number read from them, compared by its decimal text. The year of an external
  item is the first four characters of its date as they stand, undefined when there are
  none.
\<close>

theorem year_key_cases:
  "(\<not> truthy rd \<longrightarrow> year_key rd = Undefined \<and> year_compatible (year_key rd) y) \<and>
   (truthy rd \<and> \<not> truthy (toYear rd) \<longrightarrow>
      year_key rd = Str (take 4 (js_String rd)) \<and>
      (year_compatible (year_key rd) y \<longleftrightarrow> nullish y \<or> js_String y = take 4 (js_String rd))) \<and>
   (truthy rd \<and> truthy (toYear rd) \<longrightarrow>
      year_key rd = Num (Number4 (take 4 (js_String rd))) \<and>
      (year_compatible (year_key rd) y \<longleftrightarrow>
         nullish y \<or> js_String y = Number4 (take 4 (js_String rd)))) \<and>
   (external_item m = Inr it \<longrightarrow>
      (\<exists>s. or_empty (releaseDate m) = Inr s \<and>
           i_year it = (if take 4 s = [] then Undefined else Str (take 4 s))))"
proof (intro conjI impI)
  assume "\<not> truthy rd"
  then show "year_key rd = Undefined" by (rule year_key_absent)
  then show "year_compatible (year_key rd) y" by (simp add: year_compatible_def)
next
  assume a: "truthy rd \<and> \<not> truthy (toYear rd)"
  then show k: "year_key rd = Str (take 4 (js_String rd))"
    using year_key_malformed by blast
  show "year_compatible (year_key rd) y \<longleftrightarrow> nullish y \<or> js_String y = take 4 (js_String rd)"
    unfolding k by (simp add: year_compatible_def)
next
  assume a: "truthy rd \<and> truthy (toYear rd)"
  then show k: "year_key rd = Num (Number4 (take 4 (js_String rd)))"
    using year_key_numeric by blast
  show "year_compatible (year_key rd) y \<longleftrightarrow>
          nullish y \<or> js_String y = Number4 (take 4 (js_String rd))"
    unfolding k by (simp add: year_compatible_def)
next
  assume "external_item m = Inr it"
  then show "\<exists>s. or_empty (releaseDate m) = Inr s \<and>
             i_year it = (if take 4 s = [] then Undefined else Str (take 4 s))"
    by (rule external_item_year)
qed

text \<open>
  C4, witness: a missing date gives no year key; the date \<open>soon\<close> is no number and is
  its own key, which does not agree with the year 2004; the date \<open>2004-09-22\<close> gives
  the number 2004, which does; the first sample item has the year \<open>2004\<close>.
\<close>

theorem year_key_cases_witness:
  "\<not> truthy Undefined \<and> year_key Undefined = Undefined \<and>
   truthy (Str ''soon'') \<and> \<not> truthy (toYear (Str ''soon'')) \<and>
   year_key (Str ''soon'') = Str ''soon'' \<and>
   \<not> year_compatible (year_key (Str ''soon'')) (Str ''2004'') \<and>
   truthy (Str ''2004-09-22'') \<and> truthy (toYear (Str ''2004-09-22'')) \<and>
   year_key (Str ''2004-09-22'') = Num ''2004'' \<and>
   year_compatible (year_key (Str ''2004-09-22'')) (Str ''2004'') \<and>
   external_item (hd sample_external) = Inr (projr (external_item (hd sample_external))) \<and>
   i_year (projr (external_item (hd sample_external))) = Str ''2004''"
proof -
  have t1: "\<not> truthy Undefined" by simp
  have t2: "truthy (Str ''soon'') \<and> \<not> truthy (toYear (Str ''soon''))" by code_simp
  have t3: "truthy (Str ''2004-09-22'') \<and> truthy (toYear (Str ''2004-09-22''))" by code_simp
  have n: "Number4 (take 4 ''2004-09-22'') = ''2004''" by code_simp
  have e: "external_item (hd sample_external) = Inr (projr (external_item (hd sample_external)))"
    by code_simp
  have o: "or_empty (releaseDate (hd sample_external)) = Inr ''2004-09-22''" by code_simp
  have a1: "year_key Undefined = Undefined"
    using t1 year_key_cases[of Undefined "Str ''2004''" "hd sample_external"
                               "projr (external_item (hd sample_external))"]
    by blast
  have a2: "year_key (Str ''soon'') = Str (take 4 (js_String (Str ''soon''))) \<and>
            (year_compatible (year_key (Str ''soon'')) (Str ''2004'') \<longleftrightarrow>
               nullish (Str ''2004'') \<or> js_String (Str ''2004'') = take 4 (js_String (Str ''soon'')))"
    using t2 year_key_cases[of "Str ''soon''" "Str ''2004''" "hd sample_external"
                               "projr (external_item (hd sample_external))"]
    by blast
  have a3: "year_key (Str ''2004-09-22'') = Num (Number4 (take 4 (js_String (Str ''2004-09-22'')))) \<and>
            (year_compatible (year_key (Str ''2004-09-22'')) (Str ''2004'') \<longleftrightarrow>
               nullish (Str ''2004'') \<or>
               js_String (Str ''2004'') = Number4 (take 4 (js_String (Str ''2004-09-22''))))"
    using t3 year_key_cases[of "Str ''2004-09-22''" "Str ''2004''" "hd sample_external"
                               "projr (external_item (hd sample_external))"]
    by blast
  have a4: "\<exists>s. or_empty (releaseDate (hd sample_external)) = Inr s \<and>
              i_year (projr (external_item (hd sample_external)))
                = (if take 4 s = [] then Undefined else Str (take 4 s))"
    using e year_key_cases[of Undefined "Str ''2004''" "hd sample_external"
                              "projr (external_item (hd sample_external))"]
    by blast
  have b2: "year_key (Str ''soon'') = Str ''soon'' \<and>
            \<not> year_compatible (year_key (Str ''soon'')) (Str ''2004'')"
    using a2 by (simp add: year_compatible_def)
  have b3: "year_key (Str ''2004-09-22'') = Num ''2004'' \<and>
            year_compatible (year_key (Str ''2004-09-22'')) (Str ''2004'')"
    using a3 n by (simp add: year_compatible_def)
  have b4: "i_year (projr (external_item (hd sample_external))) = Str ''2004''"
    using a4 o by auto
  show ?thesis
    using t1 t2 t3 e a1 b2 b3 b4 by blast
qed

text \<open>
  C4, counterexample to the claim as stated: a tracked row titled \<open>Lost\<close> whose release
  date is the malformed \<open>soon\<close>, against the external item \<open>Lost\<close> of 2004. The year
  key of the row is not undefined but \<open>soon\<close>, the comparison fails on the year, and
  the row becomes a tracked-only entry; the same row without a date is merged.
\<close>

theorem malformed_year_counterexample:
  "toYear (Str ''soon'') = Num ''NaN'' \<and>
   year_key (Str ''soon'') = Str ''soon'' \<and>
   reconcile_targets ''TV''
     [sample_media (Str ''7'') Undefined (Str ''Lost'') (Str ''2004-09-22'')]
     [sample_ums (Num ''100'')
        (sample_media Undefined Undefined (Str ''Lost'') (Str ''soon'')) (Str ''COMPLETED'') Undefined]
     = Inr [TrackedOnly ''100''] \<and>
   reconcile_targets ''TV''
     [sample_media (Str ''7'') Undefined (Str ''Lost'') (Str ''2004-09-22'')]
     [sample_ums (Num ''100'')
        (sample_media Undefined Undefined (Str ''Lost'') Undefined) (Str ''COMPLETED'') Undefined]
     = Inr [ByFallback ''7'']"
  by code_simp

subsection \<open>C5: the order of the result\<close>

text \<open>
  C5, as amended. When the canonical ids of the external list are pairwise distinct and
  the row id of every tracked record without identifiers is neither the canonical id of an
  external item nor the new key of a record before it, the result is made of two parts:
  first one entry per external item, in the order of the external list, with the id,
  title, type, year, cover and back pointer of the entry built from that item; then one
  entry per tracked-only record, in the order in which the loop met these records, with
  the id, title, type, year and cover of the entry built from that record.
\<close>

theorem reconcile_order:
  assumes d: "distinct (map canonical_id external)"
    and fresh: "rows_fresh (map canonical_id external) (byWantedType wantedType raw)"
    and r: "reconcile wantedType external raw = Inr out"
  shows "\<exists>tgs. reconcile_targets wantedType external raw = Inr tgs \<and>
           length tgs = length (byWantedType wantedType raw) \<and>
           list_all2 (\<lambda>m e. \<exists>it. external_item m = Inr it \<and> same_core e it)
             external (take (length external) out) \<and>
           list_all2 (\<lambda>p e. \<exists>it. tracked_only_item (fst p) (snd p) = Inr it \<and> same_core e it)
             (tracked_only_rows (zip (byWantedType wantedType raw) tgs))
             (drop (length external) out)"
proof -
  obtain its em am st where b: "build_external external ([], [], []) = Inr (its, em, am)"
    and o: "overlay_all em (byWantedType wantedType raw) (initial_items its, am) = Inr st"
    and out: "out = final_items its em (fst st)"
    using reconcile_run[OF r] by blast
  obtain tgs where tgs:
    "overlay_targets em (byWantedType wantedType raw) (initial_items its, am) = Inr tgs"
    "length tgs = length (byWantedType wantedType raw)"
    "list_all2 (\<lambda>m e. \<exists>it. external_item m = Inr it \<and> same_core e it)
       external (take (length external) (final_items its em (fst st)))"
    "list_all2 (\<lambda>p e. \<exists>it. tracked_only_item (fst p) (snd p) = Inr it \<and> same_core e it)
       (tracked_only_rows (zip (byWantedType wantedType raw) tgs))
       (drop (length external) (final_items its em (fst st)))"
    using fresh_run_order[OF b d fresh o] by blast
  have T: "reconcile_targets wantedType external raw = Inr tgs"
    unfolding reconcile_targets_def b using tgs(1) by simp
  show ?thesis
    using T tgs(2,3,4) unfolding out by blast
qed

text \<open>
  C5, witness: on the sample feeds, whose external ids are distinct and whose row ids are
  fresh, the result is \<open>Lost\<close>, \<open>Dark\<close>, the two external items in their order, and
  then \<open>Fargo\<close>, the entry of the only tracked-only row, written under \<open>9\<close>.
\<close>

theorem reconcile_order_witness:
  "distinct (map canonical_id sample_external) \<and>
   rows_fresh (map canonical_id sample_external) (byWantedType ''TV'' sample_tracked) \<and>
   reconcile ''TV'' sample_external sample_tracked
     = Inr (projr (reconcile ''TV'' sample_external sample_tracked)) \<and>
   reconcile_targets ''TV'' sample_external sample_tracked
     = Inr (projr (reconcile_targets ''TV'' sample_external sample_tracked)) \<and>
   list_all2 (\<lambda>m e. \<exists>it. external_item m = Inr it \<and> same_core e it)
     sample_external
     (take (length sample_external) (projr (reconcile ''TV'' sample_external sample_tracked))) \<and>
   list_all2 (\<lambda>p e. \<exists>it. tracked_only_item (fst p) (snd p) = Inr it \<and> same_core e it)
     (tracked_only_rows (zip (byWantedType ''TV'' sample_tracked)
                          (projr (reconcile_targets ''TV'' sample_external sample_tracked))))
     (drop (length sample_external) (projr (reconcile ''TV'' sample_external sample_tracked))) \<and>
   map snd (tracked_only_rows (zip (byWantedType ''TV'' sample_tracked)
                                (projr (reconcile_targets ''TV'' sample_external sample_tracked))))
     = [''9''] \<and>
   map i_title (projr (reconcile ''TV'' sample_external sample_tracked))
     = [Str ''Lost'', Str ''Dark'', Str ''Fargo'']"
proof -
  have f: "rows_fresh (map canonical_id sample_external) (byWantedType ''TV'' sample_tracked)"
    by code_simp
  have h: "reconcile ''TV'' sample_external sample_tracked
             = Inr (projr (reconcile ''TV'' sample_external sample_tracked))"
    using map_sum_InrD[OF sample_run_ids] by blast
  have ti: "map_sum id (map i_title) (reconcile ''TV'' sample_external sample_tracked)
              = Inr [Str ''Lost'', Str ''Dark'', Str ''Fargo'']"
    by code_simp
  have tt: "map i_title (projr (reconcile ''TV'' sample_external sample_tracked))
              = [Str ''Lost'', Str ''Dark'', Str ''Fargo'']"
    using map_sum_InrD[OF ti] by blast
  have rk: "map_sum id (\<lambda>tgs. map snd (tracked_only_rows (zip (byWantedType ''TV'' sample_tracked) tgs)))
              (reconcile_targets ''TV'' sample_external sample_tracked) = Inr [''9'']"
    by code_simp
  have rows: "map snd (tracked_only_rows (zip (byWantedType ''TV'' sample_tracked)
                         (projr (reconcile_targets ''TV'' sample_external sample_tracked))))
                = [''9'']"
    using map_sum_InrD[OF rk] by blast
  obtain tgs where t: "reconcile_targets ''TV'' sample_external sample_tracked = Inr tgs"
    and E: "list_all2 (\<lambda>m e. \<exists>it. external_item m = Inr it \<and> same_core e it)
              sample_external
              (take (length sample_external) (projr (reconcile ''TV'' sample_external sample_tracked)))"
    and T: "list_all2 (\<lambda>p e. \<exists>it. tracked_only_item (fst p) (snd p) = Inr it \<and> same_core e it)
              (tracked_only_rows (zip (byWantedType ''TV'' sample_tracked) tgs))
              (drop (length sample_external) (projr (reconcile ''TV'' sample_external sample_tracked)))"
    using reconcile_order[OF sample_distinct f h] by blast
  have p: "projr (reconcile_targets ''TV'' sample_external sample_tracked) = tgs"
    unfolding t by simp
  have t': "reconcile_targets ''TV'' sample_external sample_tracked
              = Inr (projr (reconcile_targets ''TV'' sample_external sample_tracked))"
    unfolding t by simp
  show ?thesis
    using sample_distinct f h t' E T[folded p] rows tt by (intro conjI)
qed

text \<open>
  C5, counterexample to the claim as stated, in three parts. With the id \<open>1\<close> given to
  the first and to the third external item, the entry of the third item stands before the
  entry of the second. With the sample external list and one row without identifiers
  whose row id is 7, the row takes the tracked-only branch and is written under the key of
  the first external item: its entry \<open>Quark\<close>, which has no back pointer, stands before
  the entry of the external item \<open>Dark\<close>. With three rows \<open>Alpha\<close> (internal id 5),
  \<open>Beta\<close> (internal id 9) and \<open>Gamma\<close> (no identifier, row id 5), all three are
  tracked-only and the third is written under the key of the first, where it stands: the
  entry of \<open>Gamma\<close>, met last, comes before the entry of \<open>Beta\<close>.
\<close>

theorem row_id_reorders_counterexample:
  "map_sum id (map i_title)
     (reconcile ''TV''
        [sample_media (Str ''1'') Undefined (Str ''Lost'') Undefined,
         sample_media (Str ''2'') Undefined (Str ''Dark'') Undefined,
         sample_media (Str ''1'') Undefined (Str ''Fargo'') Undefined] [])
     = Inr [Str ''Fargo'', Str ''Dark'', Str ''Fargo''] \<and>
   reconcile_targets ''TV'' sample_external
     [sample_ums (Num ''7'') (sample_media Undefined Undefined (Str ''Quark'') Undefined)
        (Str ''PLANNED'') Undefined]
     = Inr [TrackedOnly ''7''] \<and>
   map_sum id (map i_title)
     (reconcile ''TV'' sample_external
        [sample_ums (Num ''7'') (sample_media Undefined Undefined (Str ''Quark'') Undefined)
           (Str ''PLANNED'') Undefined])
     = Inr [Str ''Quark'', Str ''Dark''] \<and>
   map_sum id (map i_raw)
     (reconcile ''TV'' sample_external
        [sample_ums (Num ''7'') (sample_media Undefined Undefined (Str ''Quark'') Undefined)
           (Str ''PLANNED'') Undefined])
     = Inr [None, Some (sample_media Undefined (Str ''x8'') (Str ''Dark'') (Str ''2017-12-01''))] \<and>
   reconcile_targets ''TV'' sample_external [row_alpha, row_beta, row_gamma]
     = Inr [TrackedOnly ''5'', TrackedOnly ''9'', TrackedOnly ''5''] \<and>
   map_sum id (map i_title) (reconcile ''TV'' sample_external [row_alpha, row_beta, row_gamma])
     = Inr [Str ''Lost'', Str ''Dark'', Str ''Gamma'', Str ''Beta'']"
  by code_simp

subsection \<open>C9: a blank title never matches\<close>

text \<open>
  C9. A tracked record whose title is missing, empty or white space only is accepted by
  no external item: the fallback gives nothing. So when no identifier resolves, the record
  takes the tracked-only branch, and the step writes under its new key the entry built
  from the record alone (its title as it stands, empty when missing, its type in lower
  case, its year, rating, cover and status, the href of its type and id, no back pointer)
  and registers its identifiers. And an external item is only ever returned by the search
  when its own title key is not empty.
\<close>

theorem blank_title_never_matches:
  assumes "blank_title (m_title (media_of u))"
  shows "fallback_canonical em u = Inr None \<and>
         (truthy_id (resolve_canonical im am u) = None \<longrightarrow>
            choose_target em im am u = Inr (TrackedOnly (new_key u))) \<and>
         (truthy_id (resolve_canonical im am u) = None \<and> m_type (media_of u) = Str ty \<longrightarrow>
            overlay_step em u (im, am) =
              Inr (map_set (new_key u)
                     \<lparr>i_id = Str (new_key u),
                      i_title = (if nullish (m_title (media_of u)) then Str []
                                 else m_title (media_of u)),
                      i_type = Str (toLowerCase ty),
                      i_year = toYear (releaseDate (media_of u)),
                      i_rating = u_rating u,
                      i_coverUrl = pickCover (posterUrl (media_of u)) (backdropUrl (media_of u)),
                      i_href = Str (''/collection/'' @ toLowerCase ty @ ''/''
                                    @ js_String (if nullish (mediaId (media_of u)) then u_id u
                                                 else mediaId (media_of u))),
                      i_status = u_status u,
                      i_raw = None\<rparr> im,
                   register_aliases u (new_key u) am)) \<and>
         (fallback_search t y em = Inr (Some c) \<longrightarrow>
            (\<exists>it. (c, it) \<in> set em \<and> title_key (i_title it) = Inr t \<and> t \<noteq> []))"
proof -
  have tk: "title_key (m_title (media_of u)) = Inr []"
    using assms
    by (cases "m_title (media_of u)")
       (auto simp: blank_title_def title_key_def or_empty_def js_or_def toLowerCase_def trim_def)
  have f: "fallback_canonical em u = Inr None"
    unfolding fallback_canonical_def tk by simp
  have ch: "truthy_id (resolve_canonical im am u) = None \<Longrightarrow>
              choose_target em im am u = Inr (TrackedOnly (new_key u))"
    using f by (simp add: choose_target_def truthy_id_def)
  have st: "truthy_id (resolve_canonical im am u) = None \<Longrightarrow> m_type (media_of u) = Str ty \<Longrightarrow>
            overlay_step em u (im, am) =
              Inr (map_set (new_key u)
                     \<lparr>i_id = Str (new_key u),
                      i_title = (if nullish (m_title (media_of u)) then Str []
                                 else m_title (media_of u)),
                      i_type = Str (toLowerCase ty),
                      i_year = toYear (releaseDate (media_of u)),
                      i_rating = u_rating u,
                      i_coverUrl = pickCover (posterUrl (media_of u)) (backdropUrl (media_of u)),
                      i_href = Str (''/collection/'' @ toLowerCase ty @ ''/''
                                    @ js_String (if nullish (mediaId (media_of u)) then u_id u
                                                 else mediaId (media_of u))),
                      i_status = u_status u,
                      i_raw = None\<rparr> im,
                   register_aliases u (new_key u) am)"
  proof -
    assume a: "truthy_id (resolve_canonical im am u) = None" and b: "m_type (media_of u) = Str ty"
    have "overlay_step em u (im, am) = add_tracked_only u (new_key u) (im, am)"
      using ch[OF a] by (simp add: overlay_step_def)
    then show ?thesis
      unfolding add_tracked_only_def tracked_only_item_typed[OF b] by simp
  qed
  have s: "fallback_search t y em = Inr (Some c) \<Longrightarrow>
            (\<exists>it. (c, it) \<in> set em \<and> title_key (i_title it) = Inr t \<and> t \<noteq> [])"
    by (induction em) (auto split: sum.splits if_splits)
  show ?thesis
    using f ch st s by blast
qed

text \<open>
  C9, witness: a row whose title is two blanks, with no identifier, against a map whose
  only item has an empty title: the fallback gives nothing, and the step leaves the entry
  \<open>7\<close> as it was and appends the entry of the row under its row id \<open>100\<close>.
\<close>

theorem blank_title_never_matches_witness:
  "blank_title (m_title (media_of row_blank)) \<and>
   truthy_id (resolve_canonical
                (external_map [sample_media (Str ''7'') Undefined (Str []) Undefined]) []
                row_blank) = None \<and>
   m_type (media_of row_blank) = Str ''TV'' \<and>
   choose_target (external_map [sample_media (Str ''7'') Undefined (Str []) Undefined])
     (external_map [sample_media (Str ''7'') Undefined (Str []) Undefined]) [] row_blank
     = Inr (TrackedOnly ''100'') \<and>
   map_sum id (\<lambda>st. map (\<lambda>e. (fst e, i_title (snd e), i_href (snd e), i_status (snd e))) (fst st))
     (overlay_step (external_map [sample_media (Str ''7'') Undefined (Str []) Undefined]) row_blank
        (external_map [sample_media (Str ''7'') Undefined (Str []) Undefined], []))
     = Inr [(''7'', Str [], Str ''/collection/tv/7'', Undefined),
            (''100'', Str ''  '', Str ''/collection/tv/100'', Str ''COMPLETED'')]"
proof -
  let ?em = "external_map [sample_media (Str ''7'') Undefined (Str []) Undefined]"
  have b: "blank_title (m_title (media_of row_blank))"
    by code_simp
  have r: "truthy_id (resolve_canonical ?em [] row_blank) = None"
    by code_simp
  have ty: "m_type (media_of row_blank) = Str ''TV''"
    by code_simp
  have n: "new_key row_blank = ''100''"
    by code_simp
  note inst = blank_title_never_matches[OF b, of ?em ?em "[]" "''TV''"]
  have c: "choose_target ?em ?em [] row_blank = Inr (TrackedOnly ''100'')"
    using inst r n by simp
  have o: "overlay_step ?em row_blank (?em, []) =
              Inr (map_set (new_key row_blank)
                     \<lparr>i_id = Str (new_key row_blank),
                      i_title = (if nullish (m_title (media_of row_blank)) then Str []
                                 else m_title (media_of row_blank)),
                      i_type = Str (toLowerCase ''TV''),
                      i_year = toYear (releaseDate (media_of row_blank)),
                      i_rating = u_rating row_blank,
                      i_coverUrl = pickCover (posterUrl (media_of row_blank)) (backdropUrl (media_of row_blank)),
                      i_href = Str (''/collection/'' @ toLowerCase ''TV'' @ ''/''
                                    @ js_String (if nullish (mediaId (media_of row_blank)) then u_id row_blank
                                                 else mediaId (media_of row_blank))),
                      i_status = u_status row_blank,
                      i_raw = None\<rparr> ?em,
                   register_aliases row_blank (new_key row_blank) [])"
    using inst r ty by blast
  have e: "map_sum id (\<lambda>st. map (\<lambda>e. (fst e, i_title (snd e), i_href (snd e), i_status (snd e))) (fst st))
             (Inr (map_set (new_key row_blank)
                     \<lparr>i_id = Str (new_key row_blank),
                      i_title = (if nullish (m_title (media_of row_blank)) then Str []
                                 else m_title (media_of row_blank)),
                      i_type = Str (toLowerCase ''TV''),
                      i_year = toYear (releaseDate (media_of row_blank)),
                      i_rating = u_rating row_blank,
                      i_coverUrl = pickCover (posterUrl (media_of row_blank)) (backdropUrl (media_of row_blank)),
                      i_href = Str (''/collection/'' @ toLowerCase ''TV'' @ ''/''
                                    @ js_String (if nullish (mediaId (media_of row_blank)) then u_id row_blank
                                                 else mediaId (media_of row_blank))),
                      i_status = u_status row_blank,
                      i_raw = None\<rparr> ?em,
                   register_aliases row_blank (new_key row_blank) [])
                :: error + item jsmap \<times> string jsmap)
           = Inr [(''7'', Str [], Str ''/collection/tv/7'', Undefined),
                  (''100'', Str ''  '', Str ''/collection/tv/100'', Str ''COMPLETED'')]"
    by code_simp
  show ?thesis
    using b r ty c e unfolding o[symmetric] by blast
qed

subsection \<open>C6: every input is represented\<close>

text \<open>
  C6, as amended. When the canonical ids of the external list are pairwise distinct and
  the row id of every tracked record of the wanted type that carries no identifier is
  neither the canonical id of an external item nor the new key of a record before it,
  the result holds one entry per external item, at the item's position and with the
  item's id, title, type, year and cover, followed by one entry per tracked-only record;
  the key that a tracked record was merged onto or written under is the id of exactly one
  entry of the result, and a tracked-only record's entry has the id, title, type, year and
  cover built from that record.
\<close>

theorem reconcile_complete:
  assumes d: "distinct (map canonical_id external)"
    and fresh: "rows_fresh (map canonical_id external) (byWantedType wantedType raw)"
    and r: "reconcile wantedType external raw = Inr out"
  shows "\<exists>tgs. reconcile_targets wantedType external raw = Inr tgs \<and>
           length tgs = length (byWantedType wantedType raw) \<and>
           length out = length external + length (created_keys tgs) \<and>
           list_all2 (\<lambda>m e. \<exists>it. external_item m = Inr it \<and> same_core e it)
             external (take (length external) out) \<and>
           (\<forall>p \<in> set (zip (byWantedType wantedType raw) tgs).
              length (filter (\<lambda>e. i_id e = Str (target_key (snd p))) out) = 1 \<and>
              (\<forall>k. snd p = TrackedOnly k \<longrightarrow>
                   (\<exists>e \<in> set out. \<exists>it. tracked_only_item (fst p) k = Inr it \<and> same_core e it)))"
proof -
  let ?us = "byWantedType wantedType raw"
  let ?cids = "map canonical_id external"
  obtain its em am st where b: "build_external external ([], [], []) = Inr (its, em, am)"
    and o: "overlay_all em ?us (initial_items its, am) = Inr st"
    and out: "out = final_items its em (fst st)"
    using reconcile_run[OF r] by blast
  have inv0: "overlay_inv em (initial_items its, am)"
    and k0: "set (keys (initial_items its)) = set ?cids"
    and ke: "set (keys em) = set ?cids"
    using initial_inv[OF b] by blast+
  have i: "map i_id its = map (\<lambda>m. Str (canonical_id m)) external"
    by (rule build_external_facts(2)[OF b])
  have l: "list_all2 (\<lambda>m it. external_item m = Inr it) external its"
    by (rule external_map_distinct(2)[OF b d])
  have js: "map (\<lambda>it. js_String (i_id it)) its = ?cids"
  proof -
    have "map (\<lambda>it. js_String (i_id it)) its = map js_String (map i_id its)" by simp
    also have "\<dots> = ?cids" unfolding i by simp
    finally show ?thesis .
  qed
  have dk: "distinct (map (\<lambda>it. js_String (i_id it)) its)" unfolding js by (rule d)
  obtain tgs where tgs: "overlay_targets em ?us (initial_items its, am) = Inr tgs"
    "length tgs = length ?us"
    and kf: "keys (fst st) = keys (initial_items its) @ created_keys tgs"
    and core: "\<forall>k v. map_get (initial_items its) k = Some v \<longrightarrow>
                  (\<exists>v'. map_get (fst st) k = Some v' \<and> same_core v' v)"
    and rec: "\<forall>p \<in> set (zip ?us tgs). recorded (fst st) p"
    using overlay_all_fresh[OF inv0 _ fresh o] k0 by auto
  obtain tgs' where tgs': "overlay_targets em ?us (initial_items its, am) = Inr tgs'"
    and inv: "overlay_inv em st"
    and ids: "map i_id (final_items its em (fst st))
                = map Str (?cids @ first_seen ?cids (created_keys tgs'))"
    using final_ids[OF b o] by blast
  have same: "tgs' = tgs" using tgs(1) tgs' by simp
  have kf': "keys (fst st) = keys (initial_items its)
                @ first_seen (keys (initial_items its)) (created_keys tgs)"
    using overlay_targets_inv[OF inv0 o] tgs(1) by auto
  have fs: "first_seen ?cids (created_keys tgs) = created_keys tgs"
  proof -
    have "first_seen (keys (initial_items its)) (created_keys tgs) = created_keys tgs"
      using kf kf' by simp
    moreover have "first_seen (keys (initial_items its)) (created_keys tgs)
                     = first_seen ?cids (created_keys tgs)"
      by (rule first_seen_cong[OF k0])
    ultimately show ?thesis by simp
  qed
  have oids: "map i_id out = map Str (?cids @ created_keys tgs)"
    unfolding out ids same fs ..
  have T: "reconcile_targets wantedType external raw = Inr tgs"
    unfolding reconcile_targets_def b using tgs(1) by simp
  have L: "length out = length external + length (created_keys tgs)"
  proof -
    have "length out = length (map i_id out)" by simp
    also have "\<dots> = length external + length (created_keys tgs)" unfolding oids by simp
    finally show ?thesis .
  qed
  have final_core: "\<forall>it \<in> set its. \<exists>v'. map_get (fst st) (js_String (i_id it)) = Some v' \<and> same_core v' it"
    using core initial_items_get[OF dk] by blast
  have ep: "list_all2 (\<lambda>it e. same_core e it) its (external_part its (fst st))"
    by (rule external_part_core[OF final_core])
  have len: "length (external_part its (fst st)) = length external"
    using list_all2_lengthD[OF ep] list_all2_lengthD[OF l] by simp
  have tk: "take (length external) out = external_part its (fst st)"
    unfolding out final_items_def using len by simp
  have E: "list_all2 (\<lambda>m e. \<exists>it. external_item m = Inr it \<and> same_core e it)
             external (take (length external) out)"
    unfolding tk by (rule list_all2_compose[OF l ep])
  have dout: "distinct (map i_id out)"
  proof -
    have "distinct (keys (fst st))" using inv unfolding overlay_inv_def by simp
    then have "distinct (keys (initial_items its) @ created_keys tgs)" unfolding kf .
    then have "distinct (created_keys tgs)" "set ?cids \<inter> set (created_keys tgs) = {}"
      using k0 by auto
    then have "distinct (?cids @ created_keys tgs)" using d by simp
    then show ?thesis unfolding oids by (simp only: distinct_map) (simp add: inj_on_def)
  qed
  have sk: "set (keys (fst st)) = set (?cids @ created_keys tgs)"
    unfolding kf using k0 by simp
  have member: "(k, v) \<in> set (fst st) \<Longrightarrow> v \<in> set out" for k v
  proof -
    assume kv: "(k, v) \<in> set (fst st)"
    have g: "map_get (fst st) k = Some v"
      using map_get_distinct[OF _ kv] inv unfolding overlay_inv_def by simp
    show ?thesis
    proof (cases "k \<in> set ?cids")
      case True
      then obtain it where it: "it \<in> set its" "js_String (i_id it) = k"
        unfolding js[symmetric] by auto
      then show ?thesis
        using external_part_member[of it its "fst st" v] g unfolding out final_items_def by simp
    next
      case False
      then show ?thesis
        using tracked_only_part_member[OF kv, of em] ke unfolding out final_items_def by simp
    qed
  qed
  have P: "\<forall>p \<in> set (zip ?us tgs).
              length (filter (\<lambda>e. i_id e = Str (target_key (snd p))) out) = 1 \<and>
              (\<forall>k. snd p = TrackedOnly k \<longrightarrow>
                   (\<exists>e \<in> set out. \<exists>it. tracked_only_item (fst p) k = Inr it \<and> same_core e it))"
  proof
    fix p assume "p \<in> set (zip ?us tgs)"
    then have rp: "recorded (fst st) p" using rec by blast
    have "target_key (snd p) \<in> set (keys (fst st))" using rp unfolding recorded_def by simp
    then have "Str (target_key (snd p)) \<in> Str ` set (?cids @ created_keys tgs)"
      unfolding sk by blast
    then have "Str (target_key (snd p)) \<in> i_id ` set out"
      using oids by (metis list.set_map)
    then have one: "length (filter (\<lambda>e. i_id e = Str (target_key (snd p))) out) = 1"
      by (rule count_one[OF dout])
    have two: "\<forall>k. snd p = TrackedOnly k \<longrightarrow>
                   (\<exists>e \<in> set out. \<exists>it. tracked_only_item (fst p) k = Inr it \<and> same_core e it)"
    proof (intro allI impI)
      fix k assume tk: "snd p = TrackedOnly k"
      obtain it v where it: "tracked_only_item (fst p) k = Inr it"
        "map_get (fst st) k = Some v" "same_core v it"
        using rp tk unfolding recorded_def by (auto split: sum.splits option.splits)
      have "v \<in> set out" using member[OF map_get_SomeD[OF it(2)]] .
      then show "\<exists>e \<in> set out. \<exists>it. tracked_only_item (fst p) k = Inr it \<and> same_core e it"
        using it(1,3) by blast
    qed
    show "length (filter (\<lambda>e. i_id e = Str (target_key (snd p))) out) = 1 \<and>
              (\<forall>k. snd p = TrackedOnly k \<longrightarrow>
                   (\<exists>e \<in> set out. \<exists>it. tracked_only_item (fst p) k = Inr it \<and> same_core e it))"
      using one two by blast
  qed
  show ?thesis
    using T tgs(2) L E P by blast
qed

text \<open>
  C6, witness: the sample feeds, whose second row has no identifier and the fresh row id
  101; the routine returns, and the result has one entry per external item and one per
  tracked-only row.
\<close>

theorem reconcile_complete_witness:
  "distinct (map canonical_id sample_external) \<and>
   rows_fresh (map canonical_id sample_external) (byWantedType ''TV'' sample_tracked) \<and>
   reconcile ''TV'' sample_external sample_tracked
     = Inr (projr (reconcile ''TV'' sample_external sample_tracked)) \<and>
   reconcile_targets ''TV'' sample_external sample_tracked
     = Inr (projr (reconcile_targets ''TV'' sample_external sample_tracked)) \<and>
   length (projr (reconcile ''TV'' sample_external sample_tracked))
     = length sample_external
       + length (created_keys (projr (reconcile_targets ''TV'' sample_external sample_tracked)))"
proof -
  have f: "rows_fresh (map canonical_id sample_external) (byWantedType ''TV'' sample_tracked)"
    by code_simp
  have h: "reconcile ''TV'' sample_external sample_tracked
             = Inr (projr (reconcile ''TV'' sample_external sample_tracked))"
    using map_sum_InrD[OF sample_run_ids] by blast
  obtain tgs where tgs: "reconcile_targets ''TV'' sample_external sample_tracked = Inr tgs"
    "length (projr (reconcile ''TV'' sample_external sample_tracked))
       = length sample_external + length (created_keys tgs)"
    using reconcile_complete[OF sample_distinct f h] by blast
  have "projr (reconcile_targets ''TV'' sample_external sample_tracked) = tgs"
    using tgs(1) by simp
  then show ?thesis
    using sample_distinct f h tgs by simp
qed

text \<open>
  C6, counterexample to the claim as stated: one external item of id \<open>7\<close> titled
  \<open>Lost\<close>, and one tracked row without identifiers whose row id is 7 and whose title
  \<open>Dark\<close> matches nothing. The row takes the tracked-only branch and its new key, the
  row id, is the key of the external item: the entry of \<open>Lost\<close> is overwritten, and the
  result has a single entry, titled \<open>Dark\<close>, for the two inputs.
\<close>

theorem row_id_overwrites_counterexample:
  "reconcile_targets ''TV''
     [sample_media (Str ''7'') Undefined (Str ''Lost'') Undefined]
     [sample_ums (Num ''7'') (sample_media Undefined Undefined (Str ''Dark'') Undefined)
        (Str ''COMPLETED'') Undefined]
     = Inr [TrackedOnly ''7''] \<and>
   map_sum id (map i_title)
     (reconcile ''TV''
        [sample_media (Str ''7'') Undefined (Str ''Lost'') Undefined]
        [sample_ums (Num ''7'') (sample_media Undefined Undefined (Str ''Dark'') Undefined)
           (Str ''COMPLETED'') Undefined])
     = Inr [Str ''Dark'']"
  by code_simp

subsection \<open>C7: what a merge changes\<close>

text \<open>
  C7. In every state the loop can reach, when a record resolves to a canonical id by an
  identifier or by the fallback, the entry of that id exists, and after the step it is
  the same entry with the record's status, with the record's rating or, when the record
  has none, the rating it had, and with the href made of the record's own type in lower
  case (empty when the record has none) and of its internal id or, when it has none, its
  row id; every other field of that entry, every other entry and the order of the keys
  are unchanged.
\<close>

theorem merge_frame:
  assumes s: "state_after external pre = Inr (im, am)"
    and c: "choose_target (external_map external) im am u = Inr tg"
    and tg: "tg = ById c \<or> tg = ByFallback c"
    and o: "overlay_step (external_map external) u (im, am) = Inr (im', am')"
  shows "\<exists>b. map_get im c = Some b \<and>
           map_get im' c = Some (b\<lparr>i_status := u_status u,
                i_rating := (if nullish (u_rating u) then i_rating b else u_rating u),
                i_href := Str (''/collection/''
                   @ (case m_type (media_of u) of Str s \<Rightarrow> toLowerCase s | _ \<Rightarrow> [])
                   @ ''/''
                   @ js_String (if nullish (mediaId (media_of u)) then u_id u
                                else mediaId (media_of u)))\<rparr>) \<and>
           (\<forall>k. k \<noteq> c \<longrightarrow> map_get im' k = map_get im k) \<and> keys im' = keys im"
proof -
  have inv: "overlay_inv (external_map external) (im, am)"
    by (rule state_after_inv[OF s])
  have sub: "set (keys (external_map external)) \<subseteq> set (keys im)"
    using inv unfolding overlay_inv_def by simp
  have ck: "c \<in> set (keys im)"
    using tg choose_target_ById[OF inv, of u c] choose_target_ByFallback[of "external_map external" im am u c]
      c sub by blast
  have "overlay_step (external_map external) u (im, am)
          = apply_target (external_map external) u tg (im, am)"
    using overlay_step_apply[of "external_map external" "(im, am)" u tg] c by simp
  then have m: "merge_onto (external_map external) u c (im, am) = Inr (im', am')"
    using o tg by auto
  obtain b ty where r: "map_get im c = Some b" "lower_type (media_of u) = Inr ty"
    "map_get im' c = Some (b\<lparr>i_status := u_status u,
                i_rating := (if nullish (u_rating u) then i_rating b else u_rating u),
                i_href := Str (''/collection/'' @ ty @ ''/''
                   @ js_String (if nullish (mediaId (media_of u)) then u_id u
                                else mediaId (media_of u)))\<rparr>)"
    "\<forall>k. k \<noteq> c \<longrightarrow> map_get im' k = map_get im k" "keys im' = keys im"
    using merge_onto_result[OF inv ck m] by blast
  have ty: "ty = (case m_type (media_of u) of Str s \<Rightarrow> toLowerCase s | _ \<Rightarrow> [])"
    by (rule lower_type_text[OF r(2)])
  show ?thesis
    using r(1,4,5) r(3)[unfolded ty] by blast
qed

text \<open>
  C7, witness: in the first state of the sample feed the row that carries the internal id
  \<open>7\<close> and the status \<open>WATCHING\<close> is merged onto the entry \<open>7\<close>; the step returns,
  leaves the keys and the title as they were, and the entry has the status of the row and
  the href \<^verbatim>\<open>/collection/tv/7\<close>.
\<close>

theorem merge_frame_witness:
  "state_after sample_external [] = Inr (fst sample_state, snd sample_state) \<and>
   choose_target (external_map sample_external) (fst sample_state) (snd sample_state) row_lost
     = Inr (ById ''7'') \<and>
   overlay_step (external_map sample_external) row_lost (fst sample_state, snd sample_state)
     = Inr (fst (projr (overlay_step (external_map sample_external) row_lost
                          (fst sample_state, snd sample_state))),
            snd (projr (overlay_step (external_map sample_external) row_lost
                          (fst sample_state, snd sample_state)))) \<and>
   keys (fst (projr (overlay_step (external_map sample_external) row_lost
                       (fst sample_state, snd sample_state))))
     = keys (fst sample_state) \<and>
   map_option i_href
     (map_get (fst (projr (overlay_step (external_map sample_external) row_lost
                             (fst sample_state, snd sample_state)))) ''7'')
     = Some (Str ''/collection/tv/7'') \<and>
   map_option i_status
     (map_get (fst (projr (overlay_step (external_map sample_external) row_lost
                             (fst sample_state, snd sample_state)))) ''7'')
     = Some (Str ''WATCHING'') \<and>
   map_option i_title
     (map_get (fst (projr (overlay_step (external_map sample_external) row_lost
                             (fst sample_state, snd sample_state)))) ''7'')
     = map_option i_title (map_get (fst sample_state) ''7'')"
proof -
  let ?st = "projr (overlay_step (external_map sample_external) row_lost
                      (fst sample_state, snd sample_state))"
  have c: "choose_target (external_map sample_external) (fst sample_state) (snd sample_state)
             row_lost = Inr (ById ''7'')"
    by code_simp
  have "\<not> isl (overlay_step (external_map sample_external) row_lost
                   (fst sample_state, snd sample_state))"
    by code_simp
  then have o: "overlay_step (external_map sample_external) row_lost (fst sample_state, snd sample_state)
     = Inr (fst ?st, snd ?st)"
    by (rule not_isl_pairD)
  have h: "''/collection/''
             @ (case m_type (media_of row_lost) of Str s \<Rightarrow> toLowerCase s | _ \<Rightarrow> [])
             @ ''/''
             @ js_String (if nullish (mediaId (media_of row_lost)) then u_id row_lost
                          else mediaId (media_of row_lost))
           = ''/collection/tv/7''"
    by code_simp
  have us: "u_status row_lost = Str ''WATCHING''"
    by code_simp
  obtain b where b: "map_get (fst sample_state) ''7'' = Some b"
    and g: "map_get (fst ?st) ''7'' = Some (b\<lparr>i_status := u_status row_lost,
                i_rating := (if nullish (u_rating row_lost) then i_rating b else u_rating row_lost),
                i_href := Str (''/collection/''
                   @ (case m_type (media_of row_lost) of Str s \<Rightarrow> toLowerCase s | _ \<Rightarrow> [])
                   @ ''/''
                   @ js_String (if nullish (mediaId (media_of row_lost)) then u_id row_lost
                                else mediaId (media_of row_lost)))\<rparr>)"
    and k: "keys (fst ?st) = keys (fst sample_state)"
    using merge_frame[OF sample_state c _ o, of "''7''"] by blast
  have g1: "map_option i_href (map_get (fst ?st) ''7'') = Some (Str ''/collection/tv/7'')"
    unfolding g h by simp
  have g2: "map_option i_status (map_get (fst ?st) ''7'') = Some (Str ''WATCHING'')"
    unfolding g us by simp
  have g3: "map_option i_title (map_get (fst ?st) ''7'')
              = map_option i_title (map_get (fst sample_state) ''7'')"
    unfolding g b by simp
  show ?thesis
    using sample_state c o k g1 g2 g3 by blast
qed

subsection \<open>C8: no exception on well-typed feeds\<close>

text \<open>
  C8, as amended. The elements of the external list are objects; a tracked row may lack
  its media object. When the title, type and release date of every external item and the
  title of every tracked record of the wanted type are strings or falsy values, the
  routine returns a list and raises nothing. A tracked-only entry has the empty title
  when the record has none, no year when the record has no release date, and the
  record's own rating and status, absent when they are absent; an external item without a
  title is titled \<open>Untitled\<close>, and has no year, rating or status when the feed gives
  none. An item or a record without internal and external identifier registers no alias;
  its id is nevertheless a text, that of the item's own id or of the row id, which is
  \<open>undefined\<close> when that is missing too.
\<close>

theorem reconcile_total:
  assumes e: "\<forall>m \<in> set external. well_typed_media m"
    and t: "\<forall>u \<in> set (byWantedType wantedType raw). string_or_falsy (m_title (media_of u))"
  shows "(\<exists>out. reconcile wantedType external raw = Inr out) \<and>
         (tracked_only_item u k = Inr it \<longrightarrow>
            (nullish (m_title (media_of u)) \<longrightarrow> i_title it = Str []) \<and>
            (\<not> truthy (releaseDate (media_of u)) \<longrightarrow> i_year it = Undefined) \<and>
            i_rating it = u_rating u \<and> i_status it = u_status u) \<and>
         (external_item m = Inr it' \<longrightarrow>
            (nullish (m_title m) \<longrightarrow> i_title it' = Str ''Untitled'') \<and>
            (\<not> truthy (releaseDate m) \<longrightarrow> i_year it' = Undefined) \<and>
            (\<not> truthy (m_rating m) \<longrightarrow> i_rating it' = Undefined) \<and>
            i_status it' = Undefined \<and>
            (\<not> truthy (mediaId m) \<and> \<not> truthy (externalMediaId m) \<longrightarrow>
               i_id it' = Str (js_String (m_id m)))) \<and>
         (\<not> truthy (mediaId m) \<and> \<not> truthy (externalMediaId m) \<longrightarrow> alias_external m am = am) \<and>
         (\<not> truthy (mediaId (media_of u)) \<and> \<not> truthy (externalMediaId (media_of u)) \<longrightarrow>
            register_aliases u k am = am \<and> new_key u = js_String (u_id u))"
proof -
  obtain its em am0 where b: "build_external external ([], [], []) = Inr (its, em, am0)"
    and emt: "\<forall>e \<in> set em. string_or_falsy (i_title (snd e))"
    using build_external_ok[OF e, of "[]" "[]" "[]"] by auto
  have us: "\<forall>u \<in> set (byWantedType wantedType raw).
              string_or_falsy (m_title (media_of u)) \<and> string_or_falsy (m_type (media_of u))"
    using t byWantedType_type[of _ wantedType raw] by (auto simp: string_or_falsy_def)
  obtain st where st: "overlay_all em (byWantedType wantedType raw) (initial_items its, am0) = Inr st"
    using overlay_all_ok[OF emt us] by blast
  have A: "\<exists>out. reconcile wantedType external raw = Inr out"
    unfolding reconcile_def b using st by simp
  have B: "tracked_only_item u k = Inr it \<Longrightarrow>
            (nullish (m_title (media_of u)) \<longrightarrow> i_title it = Str []) \<and>
            (\<not> truthy (releaseDate (media_of u)) \<longrightarrow> i_year it = Undefined) \<and>
            i_rating it = u_rating u \<and> i_status it = u_status u"
    using tracked_only_item_fields[of u k it] by (simp add: toYear_def)
  have C: "external_item m = Inr it' \<Longrightarrow>
            (nullish (m_title m) \<longrightarrow> i_title it' = Str ''Untitled'') \<and>
            (\<not> truthy (releaseDate m) \<longrightarrow> i_year it' = Undefined) \<and>
            (\<not> truthy (m_rating m) \<longrightarrow> i_rating it' = Undefined) \<and>
            i_status it' = Undefined \<and>
            (\<not> truthy (mediaId m) \<and> \<not> truthy (externalMediaId m) \<longrightarrow>
               i_id it' = Str (js_String (m_id m)))"
    by (auto simp: external_item_def canonical_id_def js_coalesce_def js_or_def or_empty_def
             split: sum.splits jsval.splits)
  have D: "\<not> truthy (mediaId m) \<and> \<not> truthy (externalMediaId m) \<Longrightarrow> alias_external m am' = am'"
    for am'
    by (simp add: alias_external_def)
  have E: "\<not> truthy (mediaId (media_of u)) \<and> \<not> truthy (externalMediaId (media_of u)) \<Longrightarrow>
            register_aliases u k am' = am' \<and> new_key u = js_String (u_id u)" for am'
    by (simp add: register_aliases_def set_alias_def umsInternal_def umsExternal_def
                  str_or_null_def truthy_id_def new_key_def js_or_def)
  show ?thesis using A B C D E by blast
qed

text \<open>
  C8, witness: the sample feeds are well typed and the routine returns on them; the
  entry built from a row that has neither title, release date, rating nor status has the
  empty title and none of the others; an external item that has nothing but its type is
  titled \<open>Untitled\<close>, has no year and no rating, registers no alias and gets the id
  \<open>undefined\<close>.
\<close>

theorem reconcile_total_witness:
  "list_all well_typed_media sample_external \<and>
   list_all string_or_falsy (map m_title (map media_of (byWantedType ''TV'' sample_tracked))) \<and>
   reconcile ''TV'' sample_external sample_tracked
     = Inr (projr (reconcile ''TV'' sample_external sample_tracked)) \<and>
   tracked_only_item row_bare ''100'' = Inr (projr (tracked_only_item row_bare ''100'')) \<and>
   i_title (projr (tracked_only_item row_bare ''100'')) = Str [] \<and>
   i_year (projr (tracked_only_item row_bare ''100'')) = Undefined \<and>
   i_rating (projr (tracked_only_item row_bare ''100'')) = Undefined \<and>
   i_status (projr (tracked_only_item row_bare ''100'')) = Undefined \<and>
   external_item bare_media = Inr (projr (external_item bare_media)) \<and>
   i_title (projr (external_item bare_media)) = Str ''Untitled'' \<and>
   i_year (projr (external_item bare_media)) = Undefined \<and>
   i_rating (projr (external_item bare_media)) = Undefined \<and>
   i_id (projr (external_item bare_media)) = Str ''undefined'' \<and>
   alias_external bare_media [] = [] \<and>
   register_aliases row_bare ''100'' [] = [] \<and>
   new_key row_bare = ''100''"
proof -
  have w: "list_all well_typed_media sample_external"
    by code_simp
  have s: "list_all string_or_falsy (map m_title (map media_of (byWantedType ''TV'' sample_tracked)))"
    by code_simp
  have w': "\<forall>m \<in> set sample_external. well_typed_media m"
    using w by (simp add: list_all_iff)
  have s': "\<forall>u \<in> set (byWantedType ''TV'' sample_tracked). string_or_falsy (m_title (media_of u))"
    using s by (simp add: list_all_iff)
  have t: "tracked_only_item row_bare ''100'' = Inr (projr (tracked_only_item row_bare ''100''))"
    by code_simp
  have n: "nullish (m_title (media_of row_bare)) \<and> \<not> truthy (releaseDate (media_of row_bare)) \<and>
           \<not> truthy (mediaId (media_of row_bare)) \<and> \<not> truthy (externalMediaId (media_of row_bare)) \<and>
           u_rating row_bare = Undefined \<and> u_status row_bare = Undefined \<and>
           js_String (u_id row_bare) = ''100''"
    by code_simp
  have x: "external_item bare_media = Inr (projr (external_item bare_media))"
    by code_simp
  have nx: "nullish (m_title bare_media) \<and> \<not> truthy (releaseDate bare_media) \<and>
            \<not> truthy (m_rating bare_media) \<and> \<not> truthy (mediaId bare_media) \<and>
            \<not> truthy (externalMediaId bare_media) \<and> js_String (m_id bare_media) = ''undefined''"
    by code_simp
  note inst = reconcile_total[OF w' s', where u = row_bare and k = "''100''"
      and it = "projr (tracked_only_item row_bare ''100'')" and m = bare_media
      and it' = "projr (external_item bare_media)" and am = "[]"]
  obtain out where out: "reconcile ''TV'' sample_external sample_tracked = Inr out"
    using inst by blast
  have r: "reconcile ''TV'' sample_external sample_tracked
             = Inr (projr (reconcile ''TV'' sample_external sample_tracked))"
    unfolding out by simp
  have a: "i_title (projr (tracked_only_item row_bare ''100'')) = Str []"
    "i_year (projr (tracked_only_item row_bare ''100'')) = Undefined"
    "i_rating (projr (tracked_only_item row_bare ''100'')) = u_rating row_bare"
    "i_status (projr (tracked_only_item row_bare ''100'')) = u_status row_bare"
    using inst t n by blast+
  have b: "i_title (projr (external_item bare_media)) = Str ''Untitled''"
    "i_year (projr (external_item bare_media)) = Undefined"
    "i_rating (projr (external_item bare_media)) = Undefined"
    "i_id (projr (external_item bare_media)) = Str (js_String (m_id bare_media))"
    using inst x nx by blast+
  have c: "alias_external bare_media [] = []"
    "register_aliases row_bare ''100'' [] = []"
    "new_key row_bare = js_String (u_id row_bare)"
    using inst n nx by blast+
  show ?thesis
    using w s r t a x b c n nx by simp
qed

text \<open>
  C8, counterexample to the claim as stated, in two parts. A tracked row of the wanted
  type whose title is the number 24 and which has no identifier: \<^verbatim>\<open>(m.title || "")\<close> is
  then the number, which has no \<^verbatim>\<open>trim\<close> method, and the routine raises a TypeError.
  An external item without any identifier: the missing id does not stay missing, the
  entry has the id \<open>undefined\<close> and the href \<^verbatim>\<open>/collection/tv/undefined\<close>.
\<close>

theorem numeric_title_counterexample:
  "reconcile ''TV'' []
     [sample_ums (Num ''100'') (sample_media Undefined Undefined (Num ''24'') Undefined)
        (Str ''WATCHING'') Undefined]
     = Inl TypeError \<and>
   map_sum id (map i_id) (reconcile ''TV'' [bare_media] []) = Inr [Str ''undefined''] \<and>
   map_sum id (map i_href) (reconcile ''TV'' [bare_media] [])
     = Inr [Str ''/collection/tv/undefined'']"
  by code_simp

subsection \<open>C10: the aliases of a tracked-only entry\<close>

text \<open>
  C10, as amended. When a record becomes a tracked-only entry, its internal and external
  identifiers are registered in the alias map and point at the new key, which is a key of
  the items map. Every later record of the same call that shares one of these identifiers
  is resolved by an identifier and merged onto an existing entry, never written as a
  second tracked-only entry; it is merged onto that same entry when it shares the
  internal id, and also when it comes next, shares the external id and its own internal
  id is no existing canonical id.
\<close>

theorem alias_registration:
  assumes s: "state_after external pre = Inr st0"
    and c: "choose_target (external_map external) (fst st0) (snd st0) r1 = Inr (TrackedOnly k)"
    and o: "overlay_step (external_map external) r1 st0 = Inr st1"
    and l: "overlay_all (external_map external) mid st1 = Inr (im, am)"
  shows "(umsInternal r1 = Some a \<or> umsExternal r1 = Some a \<longrightarrow>
            map_get (snd st1) a = Some k \<and> map_has (fst st1) k) \<and>
         (umsInternal r2 \<noteq> None \<and> umsInternal r2 = umsInternal r1 \<longrightarrow>
            choose_target (external_map external) im am r2 = Inr (ById k)) \<and>
         ((umsInternal r2 = Some a \<or> umsExternal r2 = Some a) \<and>
          (umsInternal r1 = Some a \<or> umsExternal r1 = Some a) \<longrightarrow>
            (\<exists>c. choose_target (external_map external) im am r2 = Inr (ById c))) \<and>
         (mid = [] \<and> umsExternal r2 \<noteq> None \<and> umsExternal r2 = umsExternal r1 \<and>
          \<not> present_in im (umsInternal r2) \<longrightarrow>
            choose_target (external_map external) im am r2 = Inr (ById k))"
proof -
  let ?em = "external_map external"
  have inv0: "overlay_inv ?em st0" by (rule state_after_inv[OF s])
  have ap: "apply_target ?em r1 (TrackedOnly k) st0 = Inr st1"
    using o overlay_step_apply[OF c] by simp
  have inv1: "overlay_inv ?em st1"
    using apply_target_inv[OF inv0 c ap] by blast
  have inv: "overlay_inv ?em (im, am)"
    using overlay_targets_inv[OF inv1 l] by blast
  have mono: "set (keys (fst st1)) \<subseteq> set (keys im)" "set (keys (snd st1)) \<subseteq> set (keys am)"
    using overlay_all_keys_mono[OF l] by simp_all
  obtain it where st1: "st1 = (map_set k it (fst st0), register_aliases r1 k (snd st0))"
    using ap by (auto simp: add_tracked_only_def split: sum.splits)
  have k: "k = new_key r1" by (rule choose_target_TrackedOnly[OF c])
  have hask: "map_has (fst st1) k"
    unfolding st1 by (simp add: map_has_def map_get_map_set)
  have reg: "umsInternal r1 = Some a \<or> umsExternal r1 = Some a \<Longrightarrow> map_get (snd st1) a = Some k" for a
    unfolding st1 using map_get_register_aliases[of r1 a k "snd st0"] by simp
  have A: "umsInternal r1 = Some a \<or> umsExternal r1 = Some a \<longrightarrow>
            map_get (snd st1) a = Some k \<and> map_has (fst st1) k"
    using reg hask by blast
  have B: "umsInternal r2 \<noteq> None \<and> umsInternal r2 = umsInternal r1 \<longrightarrow>
            choose_target ?em im am r2 = Inr (ById k)"
  proof
    assume h: "umsInternal r2 \<noteq> None \<and> umsInternal r2 = umsInternal r1"
    obtain i where i2: "umsInternal r2 = Some i" using h by blast
    have i: "umsInternal r1 = Some i" "umsInternal r2 = Some i" using h i2 by simp_all
    have ki: "k = i"
      using i(1) unfolding k new_key_spec spec_new_key_def by simp
    have "i \<in> set (keys im)"
      using hask mono(1) unfolding ki map_has_iff by blast
    then have "in_items im (umsInternal r2) = Some i"
      unfolding i(2) by (simp add: in_items_def)
    then have "resolve_canonical im am r2 = Some i"
      unfolding resolve_canonical_first_some by simp
    then have "truthy_id (resolve_canonical im am r2) = Some i"
      using resolve_truthy[OF inv, of r2] by simp
    then show "choose_target ?em im am r2 = Inr (ById k)"
      unfolding ki by (simp add: choose_target_def)
  qed
  have C: "(umsInternal r2 = Some a \<or> umsExternal r2 = Some a) \<and>
          (umsInternal r1 = Some a \<or> umsExternal r1 = Some a) \<longrightarrow>
            (\<exists>c. choose_target ?em im am r2 = Inr (ById c))"
  proof
    assume h: "(umsInternal r2 = Some a \<or> umsExternal r2 = Some a) \<and>
          (umsInternal r1 = Some a \<or> umsExternal r1 = Some a)"
    then have "map_get (snd st1) a = Some k" using reg by blast
    then have "a \<in> set (keys (snd st1))"
      using map_get_None_iff[of "snd st1" a] by auto
    then have "a \<in> set (keys am)" using mono(2) by blast
    with h show "\<exists>c. choose_target ?em im am r2 = Inr (ById c)"
      using resolve_shared[OF inv, of r2 a] by blast
  qed
  have D: "mid = [] \<and> umsExternal r2 \<noteq> None \<and> umsExternal r2 = umsExternal r1 \<and>
          \<not> present_in im (umsInternal r2) \<longrightarrow>
            choose_target ?em im am r2 = Inr (ById k)"
  proof
    assume h: "mid = [] \<and> umsExternal r2 \<noteq> None \<and> umsExternal r2 = umsExternal r1 \<and>
          \<not> present_in im (umsInternal r2)"
    obtain x where x2: "umsExternal r2 = Some x" using h by blast
    have x: "umsExternal r1 = Some x" "umsExternal r2 = Some x" using h x2 by simp_all
    have e: "st1 = (im, am)" using l h by simp
    have g: "map_get am x = Some k" using reg[of x] x(1) unfolding e by simp
    have n1: "in_items im (umsInternal r2) = None"
      using h present_in_items[of im "mediaId (media_of r2)"] unfolding umsInternal_def by simp
    have v2: "via_alias am (umsExternal r2) = Some k"
      unfolding x(2) using g by (simp add: via_alias_def map_get_map_of)
    have "resolve_canonical im am r2 = Some k"
      unfolding resolve_canonical_first_some using n1 v2 by simp
    then have "truthy_id (resolve_canonical im am r2) = Some k"
      using resolve_truthy[OF inv, of r2] by simp
    then show "choose_target ?em im am r2 = Inr (ById k)"
      by (simp add: choose_target_def)
  qed
  show ?thesis using A B C D by blast
qed

text \<open>
  C10, witness: in the first state of the sample feed the row with the unknown ids
  \<open>9\<close> and \<open>x9\<close> is written under \<open>9\<close>; the row that comes next and carries only
  the external id \<open>x9\<close> is merged onto \<open>9\<close>.
\<close>

theorem alias_registration_witness:
  "state_after sample_external [] = Inr (fst sample_state, snd sample_state) \<and>
   choose_target (external_map sample_external) (fst sample_state) (snd sample_state) row_fargo
     = Inr (TrackedOnly ''9'') \<and>
   overlay_step (external_map sample_external) row_fargo (fst sample_state, snd sample_state)
     = Inr (projr (overlay_step (external_map sample_external) row_fargo
                     (fst sample_state, snd sample_state))) \<and>
   umsExternal row_fargo = Some ''x9'' \<and> umsExternal row_fargo_again = Some ''x9'' \<and>
   map_get (snd (projr (overlay_step (external_map sample_external) row_fargo
                          (fst sample_state, snd sample_state)))) ''x9'' = Some ''9'' \<and>
   choose_target (external_map sample_external)
     (fst (projr (overlay_step (external_map sample_external) row_fargo
                    (fst sample_state, snd sample_state))))
     (snd (projr (overlay_step (external_map sample_external) row_fargo
                    (fst sample_state, snd sample_state))))
     row_fargo_again = Inr (ById ''9'')"
proof -
  let ?st1 = "projr (overlay_step (external_map sample_external) row_fargo
                       (fst sample_state, snd sample_state))"
  have s: "state_after sample_external [] = Inr (fst sample_state, snd sample_state)"
    by (rule sample_state)
  have c: "choose_target (external_map sample_external)
             (fst (fst sample_state, snd sample_state)) (snd (fst sample_state, snd sample_state))
             row_fargo = Inr (TrackedOnly ''9'')"
    by code_simp
  have "\<not> isl (overlay_step (external_map sample_external) row_fargo
                   (fst sample_state, snd sample_state))"
    by code_simp
  then have o: "overlay_step (external_map sample_external) row_fargo (fst sample_state, snd sample_state)
             = Inr ?st1"
    using not_isl_pairD by fastforce
  have l: "overlay_all (external_map sample_external) [] ?st1 = Inr (fst ?st1, snd ?st1)"
    by simp
  have e: "umsExternal row_fargo = Some ''x9''" "umsExternal row_fargo_again = Some ''x9''"
    by code_simp+
  have p: "\<not> present_in (fst ?st1) (umsInternal row_fargo_again)"
    by code_simp
  note inst = alias_registration[OF s c o l, of "''x9''" row_fargo_again]
  have g: "map_get (snd ?st1) ''x9'' = Some ''9''"
    using inst e(1) by blast
  have r: "choose_target (external_map sample_external) (fst ?st1) (snd ?st1) row_fargo_again
             = Inr (ById ''9'')"
    using inst e p by simp
  show ?thesis
    using s c o e g r by simp
qed

text \<open>
  C10, counterexample to the claim as stated: after the row that is written under its
  external id \<open>x9\<close> comes a row that shares this external id and whose internal id
  \<open>7\<close> is the id of an external item. Case 1 comes first: the second row is merged
  onto \<open>7\<close>, not onto the entry \<open>x9\<close> of the first.
\<close>

theorem shared_external_id_counterexample:
  "umsExternal (sample_ums (Num ''100'')
       (sample_media Undefined (Str ''x9'') (Str ''Fargo'') Undefined) (Str ''PLANNED'') Undefined)
     = umsExternal (sample_ums (Num ''101'')
         (sample_media (Str ''7'') (Str ''x9'') Undefined Undefined) (Str ''WATCHING'') Undefined) \<and>
   reconcile_targets ''TV''
     [sample_media (Str ''7'') Undefined (Str ''Lost'') Undefined]
     [sample_ums (Num ''100'')
        (sample_media Undefined (Str ''x9'') (Str ''Fargo'') Undefined) (Str ''PLANNED'') Undefined,
      sample_ums (Num ''101'')
        (sample_media (Str ''7'') (Str ''x9'') Undefined Undefined) (Str ''WATCHING'') Undefined]
     = Inr [TrackedOnly ''x9'', ById ''7'']"
  by code_simp

end
